theory Spec2Isabelle
  imports Main
begin

section \<open>The automatic Battleship player of player.py\<close>

text \<open>
  The theory embeds the class \<open>AutomaticPlayer\<close> of \<^verbatim>\<open>src/player.py\<close>: its
  two entry points \<open>select_target\<close> and \<open>receive_result\<close> and every helper
  they call. Python mutates the player object in place; here each method takes the
  player and returns the updated one. A Python exception is the left injection of a sum.
\<close>

subsection \<open>Values, errors, the state\<close>

text \<open>
  The variables that normally hold a cell \<open>(x, y)\<close> can also hold \<open>None\<close>
  (the constructor's initial value, the implicit result of
  \<open>choose_around_cell\<close>) and \<open>False\<close> (the result of a failed
  \<open>check_left\<close>, \<open>check_right\<close>, \<open>check_above\<close>, \<open>check_below\<close>).
  All three are hashable, so all three can be members of the set \<open>tracker\<close>.
\<close>

datatype pyval = PNone | PFalse | Cell int int

text \<open>The direction strings \<open>'h'\<close> and \<open>'v'\<close>; Python's \<open>None\<close> is \<open>None\<close>.\<close>

datatype orientation = H | V

text \<open>
  \<open>TypeError\<close>: subscripting or unpacking \<open>None\<close> or \<open>False\<close>.
  \<open>ValueError\<close>: \<open>random.randint(1, n)\<close> on an empty range.
\<close>

datatype error = TypeError | ValueError

text \<open>
  The class \<open>Board\<close> is imported from \<open>battleship.board\<close>, which is not part
  of the sources; the player reads only its two attributes \<open>width\<close> and
  \<open>height\<close>.
\<close>

record board =
  width :: int
  height :: int

text \<open>
  The dictionary \<open>current_ship_info\<close>. The key \<open>'end'\<close> is the field
  \<open>endc\<close> and the key \<open>'length'\<close> the field \<open>ship_length\<close>: the
  constructor stores 0 under it, \<open>reset_current_ship\<close> builds a dictionary
  without it, and nothing reads it.
\<close>

record ship_info =
  active :: bool
  start :: pyval
  endc :: pyval
  direction :: "orientation option"
  ship_length :: "int option"
  hits :: "pyval list"
  start_found :: bool
  end_found :: bool

record player =
  board :: board
  tracker :: "pyval set"
  dont_choose :: "(int \<times> int) set"
  last_hit :: pyval
  current_ship_info :: ship_info

text \<open>Sequencing of calls that may raise: the first exception ends the method.\<close>

definition ebind :: "error + 'a \<Rightarrow> ('a \<Rightarrow> error + 'b) \<Rightarrow> error + 'b" where
  "ebind m f = (case m of Inl e \<Rightarrow> Inl e | Inr x \<Rightarrow> f x)"

text \<open>\<open>cell[0]\<close>, \<open>cell[1]\<close> and \<open>x, y = cell\<close>.\<close>

fun item0 :: "pyval \<Rightarrow> error + int" where
  "item0 (Cell x y) = Inr x"
| "item0 PNone = Inl TypeError"
| "item0 PFalse = Inl TypeError"

fun item1 :: "pyval \<Rightarrow> error + int" where
  "item1 (Cell x y) = Inr y"
| "item1 PNone = Inl TypeError"
| "item1 PFalse = Inl TypeError"

fun unpack :: "pyval \<Rightarrow> error + (int \<times> int)" where
  "unpack (Cell x y) = Inr (x, y)"
| "unpack PNone = Inl TypeError"
| "unpack PFalse = Inl TypeError"

text \<open>Truth value of \<open>cell\<close> in \<open>if not cell\<close>: a pair is true.\<close>

fun truthy :: "pyval \<Rightarrow> bool" where
  "truthy (Cell x y) = True"
| "truthy PNone = False"
| "truthy PFalse = False"

subsection \<open>Construction (lines 161-181)\<close>

definition new_ship_info :: ship_info where
  "new_ship_info =
     \<lparr>active = False, start = PNone, endc = PNone, direction = None,
      ship_length = Some 0, hits = [], start_found = False, end_found = False\<rparr>"

definition new_player :: "board \<Rightarrow> player" where
  "new_player b =
     \<lparr>board = b, tracker = {}, dont_choose = {}, last_hit = PNone,
      current_ship_info = new_ship_info\<rparr>"

subsection \<open>Folding a hit into the pursuit (lines 210-246)\<close>

definition initialise_ship :: "player \<Rightarrow> pyval \<Rightarrow> player" where
  "initialise_ship s cell =
     s\<lparr>current_ship_info :=
         (current_ship_info s)\<lparr>active := True, start := cell, endc := cell,
            hits := hits (current_ship_info s) @ [cell]\<rparr>\<rparr>"

text \<open>
  Lines 222-233 of \<open>update_current_ship\<close>, run when the local \<open>direction\<close>
  is \<open>None\<close>; \<open>info\<close> already holds the appended hit. The result is the
  dictionary with \<open>'direction'\<close> stored, and the local \<open>direction\<close> is its
  field.
\<close>

definition infer_direction :: "ship_info \<Rightarrow> pyval \<Rightarrow> error + ship_info" where
  "infer_direction info cell =
     (if length (hits info) = 1
      then Inr (info\<lparr>start := cell, endc := cell, direction := None\<rparr>)
      else ebind (item0 cell) (\<lambda>c0. ebind (item0 (start info)) (\<lambda>s0.
        if c0 = s0 then Inr (info\<lparr>direction := Some V\<rparr>)
        else ebind (item1 cell) (\<lambda>c1. ebind (item1 (start info)) (\<lambda>s1.
          if c1 = s1 then Inr (info\<lparr>direction := Some H\<rparr>)
          else Inr (info\<lparr>direction := None\<rparr>))))))"

text \<open>Lines 236-246: the boundaries are extended along the local \<open>direction\<close>.\<close>

definition extend_boundaries :: "ship_info \<Rightarrow> pyval \<Rightarrow> error + ship_info" where
  "extend_boundaries info cell =
     (if direction info = Some V
      then ebind (item1 cell) (\<lambda>c1. ebind (item1 (start info)) (\<lambda>s1.
             if c1 < s1 then Inr (info\<lparr>start := cell\<rparr>) else Inr (info\<lparr>endc := cell\<rparr>)))
      else ebind (item0 cell) (\<lambda>c0. ebind (item0 (start info)) (\<lambda>s0.
             if c0 < s0 then Inr (info\<lparr>start := cell\<rparr>) else Inr (info\<lparr>endc := cell\<rparr>))))"

definition update_current_ship :: "player \<Rightarrow> pyval \<Rightarrow> error + player" where
  "update_current_ship s cell =
     (let info = (current_ship_info s)\<lparr>hits := hits (current_ship_info s) @ [cell]\<rparr>
      in ebind (if direction info = None then infer_direction info cell else Inr info)
           (\<lambda>info'. ebind (extend_boundaries info' cell)
              (\<lambda>info''. Inr (s\<lparr>current_ship_info := info''\<rparr>))))"

subsection \<open>The exclusion zone and the reset (lines 250-272)\<close>

definition dont_hit_nearby_cells :: "player \<Rightarrow> error + player" where
  "dont_hit_nearby_cells s =
     ebind (item0 (start (current_ship_info s))) (\<lambda>x1.
     ebind (item0 (endc (current_ship_info s))) (\<lambda>x2.
     ebind (item1 (start (current_ship_info s))) (\<lambda>y1.
     ebind (item1 (endc (current_ship_info s))) (\<lambda>y2.
       Inr (s\<lparr>dont_choose := dont_choose s \<union>
              set (concat (map (\<lambda>x. map (\<lambda>y. (x, y)) [y1 - 1 .. y2 + 1])
                               [x1 - 1 .. x2 + 1]))\<rparr>)))))"

definition reset_current_ship :: "player \<Rightarrow> player" where
  "reset_current_ship s =
     s\<lparr>current_ship_info :=
         \<lparr>active = False, start = PNone, endc = PNone, direction = None,
          ship_length = None, hits = [], start_found = False, end_found = False\<rparr>\<rparr>"

subsection \<open>A miss beyond an extremity (lines 274-285)\<close>

definition found_end :: "player \<Rightarrow> pyval \<Rightarrow> error + player" where
  "found_end s cell =
     (let info = current_ship_info s in
      if direction info = Some V then
        ebind (item1 cell) (\<lambda>c1. ebind (item1 (start info)) (\<lambda>s1.
          if c1 < s1 then Inr (s\<lparr>current_ship_info := info\<lparr>start_found := True\<rparr>\<rparr>)
          else ebind (item1 (endc info)) (\<lambda>e1.
            if c1 > e1 then Inr (s\<lparr>current_ship_info := info\<lparr>end_found := True\<rparr>\<rparr>)
            else Inr s)))
      else if direction info = Some H then
        ebind (item0 cell) (\<lambda>c0. ebind (item0 (start info)) (\<lambda>s0.
          if c0 < s0 then Inr (s\<lparr>current_ship_info := info\<lparr>start_found := True\<rparr>\<rparr>)
          else ebind (item0 (endc info)) (\<lambda>e0.
            if c0 > e0 then Inr (s\<lparr>current_ship_info := info\<lparr>end_found := True\<rparr>\<rparr>)
            else Inr s)))
      else Inr s)"

subsection \<open>receive_result (lines 183-207)\<close>

definition receive_result :: "player \<Rightarrow> bool \<Rightarrow> bool \<Rightarrow> error + player" where
  "receive_result s is_ship_hit has_ship_sunk =
     (if has_ship_sunk then
        ebind (update_current_ship s (last_hit s)) (\<lambda>s1.
        ebind (dont_hit_nearby_cells s1) (\<lambda>s2.
          Inr (reset_current_ship s2)))
      else if is_ship_hit then
        (if \<not> active (current_ship_info s) then Inr (initialise_ship s (last_hit s))
         else update_current_ship s (last_hit s))
      else
        (if active (current_ship_info s) then
           (if direction (current_ship_info s) = None
            then Inr (s\<lparr>tracker := insert (last_hit s) (tracker s)\<rparr>)
            else found_end s (last_hit s))
         else Inr (s\<lparr>tracker := insert (last_hit s) (tracker s)\<rparr>)))"

subsection \<open>Random choice (lines 288-295)\<close>

text \<open>
  \<open>random.randint(a, b)\<close> raises \<open>ValueError\<close> on an empty range and otherwise
  returns some integer of \<open>a..b\<close>. The raw draw \<open>r\<close> is the generator's output;
  every integer of the range is the result for some \<open>r\<close>.
\<close>

definition randint :: "int \<Rightarrow> int \<Rightarrow> nat \<Rightarrow> error + int" where
  "randint a b r = (if b < a then Inl ValueError else Inr (a + int r mod (b - a + 1)))"

text \<open>
  The loop of \<open>choose_randomly\<close> draws a pair per round and may run forever. The
  list holds the raw draws available to the call; \<open>None\<close> says that they were
  used up before the loop ended. The range test of \<open>randint\<close> does not depend on
  the draw: on a board with no column or no row the call raises \<open>ValueError\<close>
  whatever draws are left.
\<close>

fun choose_randomly :: "player \<Rightarrow> nat list \<Rightarrow> (error + pyval) option" where
  "choose_randomly s (rx # ry # rng) =
     (case randint 1 (width (board s)) rx of
        Inl e \<Rightarrow> Some (Inl e)
      | Inr x \<Rightarrow>
          (case randint 1 (height (board s)) ry of
             Inl e \<Rightarrow> Some (Inl e)
           | Inr y \<Rightarrow>
               if Cell x y \<in> tracker s \<or> (x, y) \<in> dont_choose s
               then choose_randomly s rng
               else Some (Inr (Cell x y))))"
| "choose_randomly s [r] =
     (if width (board s) < 1 \<or> height (board s) < 1 then Some (Inl ValueError) else None)"
| "choose_randomly s [] =
     (if width (board s) < 1 \<or> height (board s) < 1 then Some (Inl ValueError) else None)"

subsection \<open>Probing next to the pursuit (lines 298-348)\<close>

fun in_bounds :: "player \<Rightarrow> int \<times> int \<Rightarrow> bool" where
  "in_bounds s (x, y) =
     (1 \<le> x \<and> x \<le> width (board s) \<and> 1 \<le> y \<and> y \<le> height (board s))"

definition check_above :: "player \<Rightarrow> error + pyval" where
  "check_above s =
     ebind (unpack (start (current_ship_info s))) (\<lambda>(x, y).
       if \<not> in_bounds s (x, y - 1) \<or> Cell x (y - 1) \<in> tracker s \<or> (x, y - 1) \<in> dont_choose s
       then Inr PFalse else Inr (Cell x (y - 1)))"

definition check_below :: "player \<Rightarrow> error + pyval" where
  "check_below s =
     ebind (unpack (endc (current_ship_info s))) (\<lambda>(x, y).
       if \<not> in_bounds s (x, y + 1) \<or> Cell x (y + 1) \<in> tracker s \<or> (x, y + 1) \<in> dont_choose s
       then Inr PFalse else Inr (Cell x (y + 1)))"

definition check_left :: "player \<Rightarrow> error + pyval" where
  "check_left s =
     ebind (unpack (start (current_ship_info s))) (\<lambda>(x, y).
       if \<not> in_bounds s (x - 1, y) \<or> Cell (x - 1) y \<in> tracker s \<or> (x - 1, y) \<in> dont_choose s
       then Inr PFalse else Inr (Cell (x - 1) y))"

definition check_right :: "player \<Rightarrow> error + pyval" where
  "check_right s =
     ebind (unpack (endc (current_ship_info s))) (\<lambda>(x, y).
       if \<not> in_bounds s (x + 1, y) \<or> Cell (x + 1) y \<in> tracker s \<or> (x + 1, y) \<in> dont_choose s
       then Inr PFalse else Inr (Cell (x + 1) y))"

text \<open>
  The \<open>for\<close> loop of \<open>choose_around_cell\<close> over the candidate cells; falling
  off its end, the method returns \<open>None\<close>.
\<close>

fun first_free :: "player \<Rightarrow> (int \<times> int) list \<Rightarrow> pyval" where
  "first_free s [] = PNone"
| "first_free s ((x, y) # cs) =
     (if in_bounds s (x, y) \<and> Cell x y \<notin> tracker s \<and> (x, y) \<notin> dont_choose s
      then Cell x y else first_free s cs)"

definition choose_around_cell :: "player \<Rightarrow> error + pyval" where
  "choose_around_cell s =
     ebind (unpack (start (current_ship_info s))) (\<lambda>(x, y).
       Inr (first_free s (map (\<lambda>(dx, dy). (x + dx, y + dy)) [(- 1, 0), (0, - 1), (1, 0), (0, 1)])))"

subsection \<open>select_target (lines 351-403)\<close>

text \<open>
  Lines 360-398, the choice of \<open>cell\<close>. The two statements
  \<open>self.current_ship_info['start_found'] == True\<close> (lines 377 and 392) are
  comparisons: they evaluate to a boolean that is dropped, and store nothing.
\<close>

definition pick_cell :: "player \<Rightarrow> nat list \<Rightarrow> (error + pyval) option" where
  "pick_cell s rng =
     (let info = current_ship_info s in
      if \<not> active info then choose_randomly s rng
      else if direction info = None then Some (choose_around_cell s)
      else if direction info = Some H then
        (if start_found info = False then
           Some (ebind (check_left s) (\<lambda>cell.
                   if \<not> truthy cell then check_right s else Inr cell))
         else Some (check_right s))
      else
        (if start_found info = False then
           Some (ebind (check_above s) (\<lambda>cell.
                   if \<not> truthy cell then check_below s else Inr cell))
         else Some (check_below s)))"

text \<open>Lines 400-403: the chosen value is recorded and returned, whatever it is.\<close>

definition select_target :: "player \<Rightarrow> nat list \<Rightarrow> (error + pyval \<times> player) option" where
  "select_target s rng =
     (case pick_cell s rng of
        None \<Rightarrow> None
      | Some (Inl e) \<Rightarrow> Some (Inl e)
      | Some (Inr cell) \<Rightarrow>
          Some (Inr (cell, s\<lparr>tracker := insert cell (tracker s), last_hit := cell\<rparr>)))"

subsection \<open>Games\<close>

text \<open>
  A turn of the harness: \<open>select_target\<close>, then \<open>receive_result\<close> with the
  outcome of the attack on the value just returned (the method reads it from
  \<open>last_hit\<close>). A turn is given by the raw random draws available to
  \<open>select_target\<close> and by the two booleans the harness reports. The opponent's
  board is not part of the sources, so the reports are arbitrary.
\<close>

type_synonym turn = "nat list \<times> bool \<times> bool"

fun play :: "player \<Rightarrow> turn list \<Rightarrow> (error + player) option" where
  "play s [] = Some (Inr s)"
| "play s ((rng, is_ship_hit, has_ship_sunk) # ts) =
     (case select_target s rng of
        None \<Rightarrow> None
      | Some (Inl e) \<Rightarrow> Some (Inl e)
      | Some (Inr (cell, s1)) \<Rightarrow>
          (case receive_result s1 is_ship_hit has_ship_sunk of
             Inl e \<Rightarrow> Some (Inl e)
           | Inr s2 \<Rightarrow> play s2 ts))"

text \<open>A cell that \<open>select_target\<close> may still choose.\<close>

definition legal :: "player \<Rightarrow> int \<Rightarrow> int \<Rightarrow> bool" where
  "legal s x y = (in_bounds s (x, y) \<and> Cell x y \<notin> tracker s \<and> (x, y) \<notin> dont_choose s)"

subsection \<open>The pursuit's invariant\<close>

text \<open>
  The order of the extremities: the two are equal while the direction is unknown, and
  once it is known both are cells and \<open>start\<close> is not beyond \<open>end\<close> along
  the axis.
\<close>

definition start_le_end :: "ship_info \<Rightarrow> bool" where
  "start_le_end info =
     (case direction info of
        None \<Rightarrow> start info = endc info
      | Some d \<Rightarrow>
          (case (start info, endc info) of
             (Cell x1 y1, Cell x2 y2) \<Rightarrow> (if d = H then x1 \<le> x2 else y1 \<le> y2)
           | _ \<Rightarrow> False))"

text \<open>
  What the turns preserve: an active pursuit has a hit and two cells as extremities,
  ordered as above; an inactive one is empty.
\<close>

definition pursuit_inv :: "ship_info \<Rightarrow> bool" where
  "pursuit_inv info =
     (if active info then
        hits info \<noteq> [] \<and>
        (case (start info, endc info) of
           (Cell x1 y1, Cell x2 y2) \<Rightarrow>
             (case direction info of
                None \<Rightarrow> x1 = x2 \<and> y1 = y2
              | Some H \<Rightarrow> x1 \<le> x2
              | Some V \<Rightarrow> y1 \<le> y2)
         | _ \<Rightarrow> False)
      else direction info = None \<and> hits info = [] \<and> start info = endc info)"

text \<open>
  Where a value chosen by \<open>select_target\<close> lies: a cell chosen for an active
  pursuit is next to \<open>start\<close> or \<open>end\<close>, and with no pursuit the value is a
  cell.
\<close>

definition probe_of :: "ship_info \<Rightarrow> pyval \<Rightarrow> bool" where
  "probe_of info c =
     (if \<not> active info then c \<noteq> PNone \<and> c \<noteq> PFalse
      else case direction info of
        None \<Rightarrow>
          (case (start info, c) of
             (Cell x y, Cell a b) \<Rightarrow> (a, b) \<in> {(x - 1, y), (x, y - 1), (x + 1, y), (x, y + 1)}
           | _ \<Rightarrow> True)
      | Some H \<Rightarrow>
          (case (start info, endc info, c) of
             (Cell x1 y1, Cell x2 y2, Cell a b) \<Rightarrow> a = x1 - 1 \<or> a = x2 + 1
           | _ \<Rightarrow> True)
      | Some V \<Rightarrow>
          (case (start info, endc info, c) of
             (Cell x1 y1, Cell x2 y2, Cell a b) \<Rightarrow> b = y1 - 1 \<or> b = y2 + 1
           | _ \<Rightarrow> True))"

text \<open>A board of ten columns and ten rows, for the concrete games below.\<close>

definition board10 :: board where
  "board10 = \<lparr>width = 10, height = 10\<rparr>"

subsection \<open>Stating what select\_target does\<close>

text \<open>
  \<open>select_target\<close> returns \<open>v\<close>: the value is added to \<open>tracker\<close> and
  stored as \<open>last_hit\<close>, and nothing else of the player changes.
\<close>

definition chooses :: "player \<Rightarrow> nat list \<Rightarrow> pyval \<Rightarrow> bool" where
  "chooses s rng v =
     (select_target s rng = Some (Inr (v, s\<lparr>tracker := insert v (tracker s), last_hit := v\<rparr>)))"

text \<open>
  The draws reach a legal cell: some round of the loop of \<open>choose_randomly\<close> draws
  one. The arithmetic is that of \<open>randint\<close> from 1.
\<close>

fun draws_reach_legal :: "player \<Rightarrow> nat list \<Rightarrow> bool" where
  "draws_reach_legal s (rx # ry # rng) =
     (legal s (1 + int rx mod width (board s)) (1 + int ry mod height (board s))
      \<or> draws_reach_legal s rng)"
| "draws_reach_legal s [r] = False"
| "draws_reach_legal s [] = False"

text \<open>The coordinate of the cell \<open>(x, y)\<close> along the axis of a direction.\<close>

fun along :: "orientation \<Rightarrow> int \<Rightarrow> int \<Rightarrow> int" where
  "along H x y = x"
| "along V x y = y"

subsection \<open>Concrete states\<close>

text \<open>
  Players on the board of ten by ten with nothing excluded: one with a pursuit
  \<open>info\<close> and the attempted cells \<open>tr\<close>, and one with no pursuit whose last
  target is \<open>c\<close>.
\<close>

definition pursuing :: "pyval set \<Rightarrow> ship_info \<Rightarrow> player" where
  "pursuing tr info =
     \<lparr>board = board10, tracker = tr, dont_choose = {}, last_hit = PNone,
      current_ship_info = info\<rparr>"

definition pursuit :: "orientation option \<Rightarrow> pyval \<Rightarrow> pyval \<Rightarrow> pyval list \<Rightarrow> ship_info" where
  "pursuit d a b hs =
     \<lparr>active = True, start = a, endc = b, direction = d, ship_length = Some 0, hits = hs,
      start_found = False, end_found = False\<rparr>"

definition idle :: "pyval set \<Rightarrow> pyval \<Rightarrow> player" where
  "idle tr c =
     \<lparr>board = board10, tracker = tr, dont_choose = {}, last_hit = c,
      current_ship_info = new_ship_info\<rparr>"

text \<open>
  A vertical pursuit from (3, 3) to (3, 4) whose last target (3, 5) is about to be
  reported: with that hit folded in, the ship runs from (3, 3) to (3, 5).
\<close>

definition length3 :: player where
  "length3 = (pursuing {Cell 3 3, Cell 3 4, Cell 3 5}
                (pursuit (Some V) (Cell 3 3) (Cell 3 4) [Cell 3 3, Cell 3 4]))\<lparr>last_hit := Cell 3 5\<rparr>"

subsection \<open>The opponent's fleet and the harness\<close>

text \<open>
  Modelled from the spec: the opponent's ship layout and the harness that resolves an
  attack against it (the module \<open>battleship.board\<close> and the game loop are not part
  of the sources). The spec has the harness resolve each selected cell against the
  opponent's ship layout and report whether a ship was hit and whether it has sunk; a
  pursuit has a horizontal or a vertical direction, and the cells next to a destroyed
  ship are empty. So a ship is a straight run of cells from \<open>(x1, y1)\<close> to
  \<open>(x2, y2)\<close>; its zone is the run with the cells around it.
\<close>

datatype ship = Ship int int int int

fun ship_cells :: "ship \<Rightarrow> (int \<times> int) set" where
  "ship_cells (Ship x1 y1 x2 y2) = {x1 .. x2} \<times> {y1 .. y2}"

fun ship_zone :: "ship \<Rightarrow> (int \<times> int) set" where
  "ship_zone (Ship x1 y1 x2 y2) = {x1 - 1 .. x2 + 1} \<times> {y1 - 1 .. y2 + 1}"

text \<open>
  A fleet is lawful on a board when every ship is a straight run inside the grid and no
  cell of a ship lies in the zone of another ship.
\<close>

fun ship_fits :: "board \<Rightarrow> ship \<Rightarrow> bool" where
  "ship_fits b (Ship x1 y1 x2 y2) =
     (1 \<le> x1 \<and> x1 \<le> x2 \<and> x2 \<le> width b \<and> 1 \<le> y1 \<and> y1 \<le> y2 \<and> y2 \<le> height b
      \<and> (x1 = x2 \<or> y1 = y2))"

definition lawful_fleet :: "board \<Rightarrow> ship list \<Rightarrow> bool" where
  "lawful_fleet b fl =
     ((\<forall>A\<in>set fl. ship_fits b A)
      \<and> (\<forall>A\<in>set fl. \<forall>B\<in>set fl. A \<noteq> B \<longrightarrow> ship_cells A \<inter> ship_zone B = {}))"

text \<open>
  A ship has sunk for the player when all its cells have been attacked. The report on
  the last target: a hit when the target is a cell of a ship, sunk when that ship has
  then sunk. A target that is no cell hits nothing.
\<close>

fun ship_sunk :: "player \<Rightarrow> ship \<Rightarrow> bool" where
  "ship_sunk s (Ship x1 y1 x2 y2) =
     (\<forall>x\<in>set [x1 .. x2]. \<forall>y\<in>set [y1 .. y2]. Cell x y \<in> tracker s)"

definition report :: "ship list \<Rightarrow> player \<Rightarrow> bool \<times> bool" where
  "report fl s =
     (case last_hit s of
        Cell x y \<Rightarrow>
          (case find (\<lambda>A. (x, y) \<in> ship_cells A) fl of
             None \<Rightarrow> (False, False)
           | Some A \<Rightarrow> (True, ship_sunk s A))
      | _ \<Rightarrow> (False, False))"

text \<open>
  A game against a fleet: each turn is \<open>select_target\<close> on the draws of the turn,
  then \<open>receive_result\<close> on the report of the harness.
\<close>

fun play_against :: "ship list \<Rightarrow> player \<Rightarrow> nat list list \<Rightarrow> (error + player) option" where
  "play_against fl s [] = Some (Inr s)"
| "play_against fl s (rng # rngs) =
     (case select_target s rng of
        None \<Rightarrow> None
      | Some (Inl e) \<Rightarrow> Some (Inl e)
      | Some (Inr (cell, s1)) \<Rightarrow>
          (case receive_result s1 (fst (report fl s1)) (snd (report fl s1)) of
             Inl e \<Rightarrow> Some (Inl e)
           | Inr s2 \<Rightarrow> play_against fl s2 rngs))"

text \<open>
  What such a game preserves. No cell of the ship has been attacked
  (\<open>untouched\<close>). The pursuit lies on the ship (\<open>lies_on\<close>): \<open>start\<close> and
  \<open>end\<close> are cells of the ship, the attacked cells of the ship are exactly those from
  \<open>start\<close> to \<open>end\<close>, the direction, once known, is that of the run, and
  \<open>start_found\<close> is set only when \<open>start\<close> is the first cell of the ship.
\<close>

fun untouched :: "player \<Rightarrow> ship \<Rightarrow> bool" where
  "untouched s (Ship x1 y1 x2 y2) =
     (\<forall>x y. x1 \<le> x \<and> x \<le> x2 \<and> y1 \<le> y \<and> y \<le> y2 \<longrightarrow> Cell x y \<notin> tracker s)"

fun lies_on :: "player \<Rightarrow> ship \<Rightarrow> bool" where
  "lies_on s (Ship x1 y1 x2 y2) =
     (\<exists>sx sy ex ey.
        start (current_ship_info s) = Cell sx sy \<and> endc (current_ship_info s) = Cell ex ey
        \<and> x1 \<le> sx \<and> sx \<le> ex \<and> ex \<le> x2 \<and> y1 \<le> sy \<and> sy \<le> ey \<and> ey \<le> y2
        \<and> (\<forall>x y. x1 \<le> x \<and> x \<le> x2 \<and> y1 \<le> y \<and> y \<le> y2 \<longrightarrow>
              (Cell x y \<in> tracker s) = (sx \<le> x \<and> x \<le> ex \<and> sy \<le> y \<and> y \<le> ey))
        \<and> (case direction (current_ship_info s) of
              None \<Rightarrow> sx = ex \<and> sy = ey \<and> \<not> start_found (current_ship_info s)
            | Some H \<Rightarrow> sx < ex \<and> sy = ey \<and> (start_found (current_ship_info s) \<longrightarrow> sx = x1)
            | Some V \<Rightarrow> sx = ex \<and> sy < ey \<and> (start_found (current_ship_info s) \<longrightarrow> sy = y1)))"

text \<open>
  Every excluded cell lies in the zone of a sunk ship; an active pursuit lies on a ship
  that has not sunk, and every other ship has sunk or is untouched.
\<close>

definition game_inv :: "board \<Rightarrow> ship list \<Rightarrow> player \<Rightarrow> bool" where
  "game_inv b fl s =
     (board s = b
      \<and> (\<forall>c\<in>dont_choose s. \<exists>A\<in>set fl. ship_sunk s A \<and> c \<in> ship_zone A)
      \<and> (if active (current_ship_info s) then
            hits (current_ship_info s) \<noteq> []
            \<and> (\<exists>A\<in>set fl. lies_on s A \<and> \<not> ship_sunk s A
                  \<and> (\<forall>B\<in>set fl. B \<noteq> A \<longrightarrow> ship_sunk s B \<or> untouched s B))
          else direction (current_ship_info s) = None \<and> hits (current_ship_info s) = []
            \<and> \<not> start_found (current_ship_info s)
            \<and> (\<forall>B\<in>set fl. ship_sunk s B \<or> untouched s B)))"

text \<open>The cells that \<open>select_target\<close> probes for an active pursuit.\<close>

definition probe_at :: "ship_info \<Rightarrow> int \<Rightarrow> int \<Rightarrow> bool" where
  "probe_at info x y =
     (case (start info, endc info) of
        (Cell sx sy, Cell ex ey) \<Rightarrow>
          (case direction info of
             None \<Rightarrow> (x, y) \<in> {(sx - 1, sy), (sx, sy - 1), (sx + 1, sy), (sx, sy + 1)}
           | Some H \<Rightarrow> ((x, y) = (sx - 1, sy) \<and> \<not> start_found info) \<or> (x, y) = (ex + 1, ey)
           | Some V \<Rightarrow> ((x, y) = (sx, sy - 1) \<and> \<not> start_found info) \<or> (x, y) = (ex, ey + 1))
      | _ \<Rightarrow> False)"


text \<open>
  A fleet of one ship on (4, 4), (4, 5), (4, 6), and two states of a game against it:
  after a first hit at (4, 5), and after a miss at (3, 5) and a second hit at (4, 4).
\<close>

definition three_cells :: "ship list" where
  "three_cells = [Ship 4 4 4 6]"

definition seeking_4_5 :: player where
  "seeking_4_5 =
     \<lparr>board = board10, tracker = {Cell 4 5}, dont_choose = {}, last_hit = Cell 4 5,
      current_ship_info = \<lparr>active = True, start = Cell 4 5, endc = Cell 4 5,
        direction = None, ship_length = Some 0, hits = [Cell 4 5],
        start_found = False, end_found = False\<rparr>\<rparr>"

definition extending_4_4 :: player where
  "extending_4_4 =
     \<lparr>board = board10, tracker = {Cell 4 4, Cell 3 5, Cell 4 5}, dont_choose = {},
      last_hit = Cell 4 4,
      current_ship_info = \<lparr>active = True, start = Cell 4 4, endc = Cell 4 5,
        direction = Some V, ship_length = Some 0, hits = [Cell 4 5, Cell 4 4],
        start_found = False, end_found = False\<rparr>\<rparr>"

section \<open>Basic facts\<close>

lemma ebind_Inl [simp]: "ebind (Inl e) f = Inl e"
  by (simp add: ebind_def)

lemma ebind_Inr [simp]: "ebind (Inr x) f = f x"
  by (simp add: ebind_def)

text \<open>The definitions that the evaluation of a concrete game unfolds.\<close>

lemmas play_unfold =
  board10_def new_player_def new_ship_info_def select_target_def pick_cell_def randint_def
  choose_around_cell_def check_left_def check_right_def check_above_def check_below_def
  receive_result_def initialise_ship_def update_current_ship_def infer_direction_def
  extend_boundaries_def dont_hit_nearby_cells_def reset_current_ship_def found_end_def
  Let_def

section \<open>Facts about the helpers\<close>

lemma check_left_Cell:
  "start (current_ship_info s) = Cell x y \<Longrightarrow>
   check_left s = Inr (if legal s (x - 1) y then Cell (x - 1) y else PFalse)"
  by (simp add: check_left_def legal_def)

lemma check_right_Cell:
  "endc (current_ship_info s) = Cell x y \<Longrightarrow>
   check_right s = Inr (if legal s (x + 1) y then Cell (x + 1) y else PFalse)"
  by (simp add: check_right_def legal_def)

lemma check_above_Cell:
  "start (current_ship_info s) = Cell x y \<Longrightarrow>
   check_above s = Inr (if legal s x (y - 1) then Cell x (y - 1) else PFalse)"
  by (simp add: check_above_def legal_def)

lemma check_below_Cell:
  "endc (current_ship_info s) = Cell x y \<Longrightarrow>
   check_below s = Inr (if legal s x (y + 1) then Cell x (y + 1) else PFalse)"
  by (simp add: check_below_def legal_def)

lemma first_free_find:
  "first_free s cs =
     (case find (\<lambda>(a, b). legal s a b) cs of None \<Rightarrow> PNone | Some (a, b) \<Rightarrow> Cell a b)"
  by (induction s cs rule: first_free.induct) (simp_all add: legal_def del: in_bounds.simps)

lemma choose_around_cell_Cell:
  "start (current_ship_info s) = Cell x y \<Longrightarrow>
   choose_around_cell s = Inr (first_free s [(x - 1, y), (x, y - 1), (x + 1, y), (x, y + 1)])"
  by (simp add: choose_around_cell_def)

lemma rows_of_pairs: "(\<Union>x\<in>A. Pair x ` B) = A \<times> B"
  by auto

lemma dont_hit_nearby_cells_Cell:
  "start (current_ship_info s) = Cell x1 y1 \<Longrightarrow> endc (current_ship_info s) = Cell x2 y2 \<Longrightarrow>
   dont_hit_nearby_cells s =
     Inr (s\<lparr>dont_choose := dont_choose s \<union> {x1 - 1 .. x2 + 1} \<times> {y1 - 1 .. y2 + 1}\<rparr>)"
  by (simp add: dont_hit_nearby_cells_def rows_of_pairs)

lemma update_current_ship_cells:
  assumes "start (current_ship_info s) = Cell sx sy"
    and "endc (current_ship_info s) = Cell ex ey"
  shows "\<exists>s1 x1 y1 x2 y2. update_current_ship s (Cell cx cy) = Inr s1
           \<and> start (current_ship_info s1) = Cell x1 y1 \<and> endc (current_ship_info s1) = Cell x2 y2
           \<and> dont_choose s1 = dont_choose s"
  using assms
  by (simp add: update_current_ship_def infer_direction_def extend_boundaries_def Let_def)

lemma randint_from_1:
  "randint 1 w r = (if w < 1 then Inl ValueError else Inr (1 + int r mod w))"
  by (simp add: randint_def)

lemma draw_in_range: "1 \<le> w \<Longrightarrow> 1 \<le> 1 + int r mod w \<and> 1 + int r mod w \<le> w"
  using pos_mod_sign [of w "int r"] pos_mod_bound [of w "int r"] by linarith

lemma legal_board: "legal s x y \<Longrightarrow> 1 \<le> width (board s) \<and> 1 \<le> height (board s)"
  by (auto simp: legal_def)

lemma choose_randomly_legal:
  "choose_randomly s rng = Some (Inr c) \<Longrightarrow> \<exists>x y. c = Cell x y \<and> legal s x y"
proof (induction s rng rule: choose_randomly.induct)
  case (1 s rx ry rng)
  show ?case
  proof (cases "width (board s) < 1 \<or> height (board s) < 1")
    case True
    with "1.prems" show ?thesis by (auto simp: randint_from_1 split: if_splits)
  next
    case False
    let ?x = "1 + int rx mod width (board s)" and ?y = "1 + int ry mod height (board s)"
    from False have b: "in_bounds s (?x, ?y)"
      using draw_in_range [of "width (board s)" rx] draw_in_range [of "height (board s)" ry]
      by simp
    show ?thesis
    proof (cases "Cell ?x ?y \<in> tracker s \<or> (?x, ?y) \<in> dont_choose s")
      case True
      with False "1.prems" have "choose_randomly s rng = Some (Inr c)"
        by (auto simp: randint_from_1)
      with "1.IH" [of ?x ?y] False True show ?thesis by (auto simp: randint_from_1)
    next
      case nf: False
      with False "1.prems" have "c = Cell ?x ?y" by (auto simp: randint_from_1)
      with nf b show ?thesis by (simp add: legal_def del: in_bounds.simps)
    qed
  qed
qed (simp_all split: if_splits)

lemma draws_reach_legal_board:
  "draws_reach_legal s rng \<Longrightarrow> 1 \<le> width (board s) \<and> 1 \<le> height (board s)"
  by (induction s rng rule: draws_reach_legal.induct) (auto dest: legal_board)

lemma choose_randomly_reaches:
  "draws_reach_legal s rng \<Longrightarrow> \<exists>x y. choose_randomly s rng = Some (Inr (Cell x y))"
proof (induction s rng rule: choose_randomly.induct)
  case (1 s rx ry rng)
  let ?x = "1 + int rx mod width (board s)" and ?y = "1 + int ry mod height (board s)"
  show ?case
  proof (cases "legal s ?x ?y")
    case True
    from legal_board [OF True] True show ?thesis
      by (simp add: randint_from_1 legal_def)
  next
    case False
    with "1.prems" have r: "draws_reach_legal s rng" by simp
    show ?thesis
    proof (cases "width (board s) < 1 \<or> height (board s) < 1")
      case True
      with draws_reach_legal_board [OF r] show ?thesis by simp
    next
      case nb: False
      show ?thesis
      proof (cases "Cell ?x ?y \<in> tracker s \<or> (?x, ?y) \<in> dont_choose s")
        case True
        with "1.IH" [of ?x ?y] nb r show ?thesis by (auto simp: randint_from_1)
      next
        case nf: False
        with nb show ?thesis by (auto simp: randint_from_1)
      qed
    qed
  qed
qed simp_all

lemma first_free_legal:
  "first_free s cs = Cell x y \<Longrightarrow> legal s x y"
  by (induction s cs rule: first_free.induct)
     (auto simp: legal_def split: if_splits simp del: in_bounds.simps)

lemma first_free_exists:
  "\<exists>c\<in>set cs. legal s (fst c) (snd c) \<Longrightarrow> \<exists>x y. first_free s cs = Cell x y"
  by (induction s cs rule: first_free.induct)
     (auto simp: legal_def simp del: in_bounds.simps)

lemma check_left_legal: "check_left s = Inr (Cell x y) \<Longrightarrow> legal s x y"
  by (cases "start (current_ship_info s)")
     (auto simp: check_left_def legal_def split: if_splits)

lemma check_right_legal: "check_right s = Inr (Cell x y) \<Longrightarrow> legal s x y"
  by (cases "endc (current_ship_info s)")
     (auto simp: check_right_def legal_def split: if_splits)

lemma check_above_legal: "check_above s = Inr (Cell x y) \<Longrightarrow> legal s x y"
  by (cases "start (current_ship_info s)")
     (auto simp: check_above_def legal_def split: if_splits)

lemma check_below_legal: "check_below s = Inr (Cell x y) \<Longrightarrow> legal s x y"
  by (cases "endc (current_ship_info s)")
     (auto simp: check_below_def legal_def split: if_splits)

lemma choose_around_cell_legal: "choose_around_cell s = Inr (Cell x y) \<Longrightarrow> legal s x y"
  by (cases "start (current_ship_info s)")
     (auto simp: choose_around_cell_def dest: first_free_legal simp del: first_free.simps)

lemma pick_cell_legal:
  assumes "pick_cell s rng = Some (Inr (Cell x y))"
  shows "legal s x y"
proof (cases "active (current_ship_info s)")
  case False
  with assms have "choose_randomly s rng = Some (Inr (Cell x y))" by (simp add: pick_cell_def)
  from choose_randomly_legal [OF this] show ?thesis by simp
next
  case True
  note act = this
  show ?thesis
  proof (cases "direction (current_ship_info s)")
    case None
    with assms act have "choose_around_cell s = Inr (Cell x y)" by (simp add: pick_cell_def)
    then show ?thesis by (rule choose_around_cell_legal)
  next
    case (Some d)
    show ?thesis
    proof (cases d)
      case H
      with assms act Some
      have "check_left s = Inr (Cell x y) \<or> check_right s = Inr (Cell x y)"
        by (cases "check_left s") (auto simp: pick_cell_def split: if_splits)
      then show ?thesis by (auto dest: check_left_legal check_right_legal)
    next
      case V
      with assms act Some
      have "check_above s = Inr (Cell x y) \<or> check_below s = Inr (Cell x y)"
        by (cases "check_above s") (auto simp: pick_cell_def split: if_splits)
      then show ?thesis by (auto dest: check_above_legal check_below_legal)
    qed
  qed
qed

section \<open>What select\_target chooses\<close>

lemma choose_randomly_Cell:
  "choose_randomly s rng = Some (Inr c) \<Longrightarrow>
   \<exists>x y. c = Cell x y \<and> c \<notin> tracker s \<and> (x, y) \<notin> dont_choose s"
  by (induction s rng rule: choose_randomly.induct)
     (auto split: sum.splits if_splits)

lemma first_free_cases:
  "first_free s cs = PNone \<or> (\<exists>a b. first_free s cs = Cell a b \<and> (a, b) \<in> set cs
      \<and> in_bounds s (a, b) \<and> Cell a b \<notin> tracker s \<and> (a, b) \<notin> dont_choose s)"
  by (induction s cs rule: first_free.induct) (auto simp del: in_bounds.simps)

lemma select_target_state:
  "select_target s rng = Some (Inr (c, s1)) \<Longrightarrow>
   s1 = s\<lparr>tracker := insert c (tracker s), last_hit := c\<rparr>"
  by (auto simp: select_target_def split: option.splits sum.splits)

lemma select_target_pick:
  "select_target s rng = Some (Inr (c, s1)) \<Longrightarrow> pick_cell s rng = Some (Inr c)"
  by (auto simp: select_target_def split: option.splits sum.splits)

lemma pick_cell_probe_of:
  assumes "pick_cell s rng = Some (Inr c)"
  shows "probe_of (current_ship_info s) c"
proof (cases "active (current_ship_info s)")
  case False
  with assms have "choose_randomly s rng = Some (Inr c)" by (simp add: pick_cell_def)
  from choose_randomly_Cell [OF this] False show ?thesis by (auto simp: probe_of_def)
next
  case True
  note act = this
  show ?thesis
  proof (cases "direction (current_ship_info s)")
    case None
    show ?thesis
    proof (cases "start (current_ship_info s)")
      case (Cell x y)
      with assms act None
      have c: "c = first_free s [(x - 1, y), (x, y - 1), (x + 1, y), (x, y + 1)]"
        by (simp add: pick_cell_def choose_around_cell_def del: first_free.simps)
      from first_free_cases [of s "[(x - 1, y), (x, y - 1), (x + 1, y), (x, y + 1)]"]
      show ?thesis unfolding c [symmetric] using act None Cell
        by (auto simp: probe_of_def)
    qed (use act None in \<open>simp_all add: probe_of_def\<close>)
  next
    case (Some d)
    show ?thesis
    proof (cases d)
      case H
      with assms act Some show ?thesis
        by (cases "start (current_ship_info s)"; cases "endc (current_ship_info s)"; cases c)
           (auto simp: probe_of_def pick_cell_def check_left_def check_right_def
                 split: if_splits simp del: in_bounds.simps)
    next
      case V
      with assms act Some show ?thesis
        by (cases "start (current_ship_info s)"; cases "endc (current_ship_info s)"; cases c)
           (auto simp: probe_of_def pick_cell_def check_above_def check_below_def
                 split: if_splits simp del: in_bounds.simps)
    qed
  qed
qed

section \<open>The invariant of a turn\<close>

lemma update_current_ship_inv:
  assumes "pursuit_inv (current_ship_info s)"
    and "probe_of (current_ship_info s) cell"
    and "active (current_ship_info s)"
    and "update_current_ship s cell = Inr s'"
  shows "pursuit_inv (current_ship_info s')"
proof -
  obtain a b where cell: "cell = Cell a b"
    using assms(4)
    by (cases cell)
       (auto simp: update_current_ship_def infer_direction_def extend_boundaries_def Let_def
             split: if_splits)
  from assms(1,3) obtain x1 y1 x2 y2 where
    se: "start (current_ship_info s) = Cell x1 y1" "endc (current_ship_info s) = Cell x2 y2"
    and h: "hits (current_ship_info s) \<noteq> []"
    by (cases "start (current_ship_info s)"; cases "endc (current_ship_info s)")
       (auto simp: pursuit_inv_def)
  show ?thesis
  proof (cases "direction (current_ship_info s)")
    case None
    with assms se h cell show ?thesis
      by (auto simp: update_current_ship_def infer_direction_def extend_boundaries_def Let_def
            pursuit_inv_def probe_of_def split: if_splits)
  next
    case (Some d)
    with assms se h cell show ?thesis
      by (cases d)
         (auto simp: update_current_ship_def extend_boundaries_def Let_def
            pursuit_inv_def probe_of_def split: if_splits)
  qed
qed

lemma reset_inv: "pursuit_inv (current_ship_info (reset_current_ship s))"
  by (simp add: reset_current_ship_def pursuit_inv_def)

lemma found_end_inv:
  "found_end s cell = Inr s' \<Longrightarrow> pursuit_inv (current_ship_info s) \<Longrightarrow>
   pursuit_inv (current_ship_info s')"
  by (cases cell; cases "start (current_ship_info s)"; cases "endc (current_ship_info s)")
     (auto simp: found_end_def Let_def pursuit_inv_def split: if_splits)

lemma receive_result_inv:
  assumes "pursuit_inv (current_ship_info s)"
    and "probe_of (current_ship_info s) (last_hit s)"
    and "receive_result s is_ship_hit has_ship_sunk = Inr s'"
  shows "pursuit_inv (current_ship_info s')"
proof (cases has_ship_sunk)
  case True
  with assms(3) obtain s2 where "s' = reset_current_ship s2"
    by (cases "update_current_ship s (last_hit s)")
       (auto simp: receive_result_def ebind_def split: sum.splits)
  then show ?thesis by (simp add: reset_inv)
next
  case False
  note ns = this
  show ?thesis
  proof (cases is_ship_hit)
    case True
    show ?thesis
    proof (cases "active (current_ship_info s)")
      case True
      with ns \<open>is_ship_hit\<close> assms(3) have "update_current_ship s (last_hit s) = Inr s'"
        by (simp add: receive_result_def)
      from update_current_ship_inv [OF assms(1,2) True this] show ?thesis .
    next
      case False
      with ns \<open>is_ship_hit\<close> assms(3) have s': "s' = initialise_ship s (last_hit s)"
        by (simp add: receive_result_def)
      from assms(1,2) False show ?thesis unfolding s'
        by (cases "last_hit s") (auto simp: initialise_ship_def pursuit_inv_def probe_of_def)
    qed
  next
    case False
    with ns assms(3) have
      "s' = s\<lparr>tracker := insert (last_hit s) (tracker s)\<rparr> \<or> found_end s (last_hit s) = Inr s'"
      by (auto simp: receive_result_def split: if_splits)
    then show ?thesis
    proof
      assume "s' = s\<lparr>tracker := insert (last_hit s) (tracker s)\<rparr>"
      with assms(1) show ?thesis by simp
    next
      assume "found_end s (last_hit s) = Inr s'"
      from found_end_inv [OF this assms(1)] show ?thesis .
    qed
  qed
qed

lemma turn_inv:
  assumes "pursuit_inv (current_ship_info s)"
    and "select_target s rng = Some (Inr (c, s1))"
    and "receive_result s1 is_ship_hit has_ship_sunk = Inr s2"
  shows "pursuit_inv (current_ship_info s2)"
proof -
  have s1: "s1 = s\<lparr>tracker := insert c (tracker s), last_hit := c\<rparr>"
    by (rule select_target_state [OF assms(2)])
  have "probe_of (current_ship_info s) c"
    by (rule pick_cell_probe_of [OF select_target_pick [OF assms(2)]])
  with s1 have p: "probe_of (current_ship_info s1) (last_hit s1)" by simp
  from assms(1) s1 have i: "pursuit_inv (current_ship_info s1)" by simp
  show ?thesis by (rule receive_result_inv [OF i p assms(3)])
qed

lemma play_inv:
  "pursuit_inv (current_ship_info s) \<Longrightarrow> play s ts = Some (Inr s') \<Longrightarrow>
   pursuit_inv (current_ship_info s')"
proof (induction ts arbitrary: s)
  case Nil
  then show ?case by simp
next
  case (Cons t ts)
  obtain rng h k where t: "t = (rng, h, k)" by (cases t)
  from Cons.prems(2) obtain c s1 s2 where
    st: "select_target s rng = Some (Inr (c, s1))"
    and rr: "receive_result s1 h k = Inr s2"
    and rest: "play s2 ts = Some (Inr s')"
    unfolding t by (auto split: option.splits sum.splits prod.splits)
  from turn_inv [OF Cons.prems(1) st rr] have "pursuit_inv (current_ship_info s2)" .
  from Cons.IH [OF this rest] show ?case .
qed

lemma pursuit_inv_start_le_end: "pursuit_inv info \<Longrightarrow> start_le_end info"
  by (cases "start info"; cases "endc info"; cases "direction info")
     (auto simp: pursuit_inv_def start_le_end_def split: if_splits orientation.splits)

lemma new_player_inv: "pursuit_inv (current_ship_info (new_player b))"
  by (simp add: new_player_def new_ship_info_def pursuit_inv_def)


section \<open>Games against a lawful fleet\<close>

subsection \<open>Ships and reports\<close>

lemma ship_sunk_iff:
  "ship_sunk s (Ship x1 y1 x2 y2) =
     (\<forall>x y. x1 \<le> x \<and> x \<le> x2 \<and> y1 \<le> y \<and> y \<le> y2 \<longrightarrow> Cell x y \<in> tracker s)"
  by (auto simp: ship_sunk.simps)

declare ship_sunk.simps [simp del]

declare ship_sunk_iff [simp]

lemma in_ship_cells: "((x, y) \<in> ship_cells (Ship x1 y1 x2 y2)) = (x1 \<le> x \<and> x \<le> x2 \<and> y1 \<le> y \<and> y \<le> y2)"
  by auto

lemma in_ship_zone:
  "((x, y) \<in> ship_zone (Ship x1 y1 x2 y2)) = (x1 - 1 \<le> x \<and> x \<le> x2 + 1 \<and> y1 - 1 \<le> y \<and> y \<le> y2 + 1)"
  by auto

lemma ship_cells_zone: "c \<in> ship_cells A \<Longrightarrow> c \<in> ship_zone A"
  by (cases A; cases c) auto

lemma lawful_fits: "lawful_fleet b fl \<Longrightarrow> A \<in> set fl \<Longrightarrow> ship_fits b A"
  by (simp add: lawful_fleet_def)

lemma lawful_unique:
  "lawful_fleet b fl \<Longrightarrow> A \<in> set fl \<Longrightarrow> B \<in> set fl \<Longrightarrow> c \<in> ship_cells A \<Longrightarrow>
   c \<in> ship_zone B \<Longrightarrow> A = B"
  unfolding lawful_fleet_def by blast

lemma find_ship:
  assumes "lawful_fleet b fl" and "A \<in> set fl" and "c \<in> ship_cells A"
  shows "find (\<lambda>B. c \<in> ship_cells B) fl = Some A"
proof -
  have "\<exists>B. find (\<lambda>B. c \<in> ship_cells B) fl = Some B"
    using assms(2,3) by (cases "find (\<lambda>B. c \<in> ship_cells B) fl") (auto simp: find_None_iff)
  then obtain B where f: "find (\<lambda>B. c \<in> ship_cells B) fl = Some B" by blast
  then have "B \<in> set fl" "c \<in> ship_cells B"
    by (auto simp: find_Some_iff)
  with lawful_unique [OF assms(1) this(1) assms(2) this(2) ship_cells_zone [OF assms(3)]] f
  show ?thesis by simp
qed

lemma report_hit:
  "lawful_fleet b fl \<Longrightarrow> A \<in> set fl \<Longrightarrow> (x, y) \<in> ship_cells A \<Longrightarrow> last_hit s = Cell x y \<Longrightarrow>
   report fl s = (True, ship_sunk s A)"
  by (simp add: report_def find_ship)

lemma report_miss:
  "\<forall>A\<in>set fl. (x, y) \<notin> ship_cells A \<Longrightarrow> last_hit s = Cell x y \<Longrightarrow>
   report fl s = (False, False)"
  by (simp add: report_def find_None_iff [THEN iffD2])

lemma ship_cell_legal:
  assumes law: "lawful_fleet b fl" and inv: "game_inv b fl s" and A: "A \<in> set fl"
    and c: "(x, y) \<in> ship_cells A" and nt: "Cell x y \<notin> tracker s"
  shows "legal s x y"
proof -
  have b: "board s = b" using inv by (simp add: game_inv_def)
  have "in_bounds s (x, y)"
    using lawful_fits [OF law A] c b by (cases A) auto
  moreover have "(x, y) \<notin> dont_choose s"
  proof
    assume "(x, y) \<in> dont_choose s"
    with inv obtain B where B: "B \<in> set fl" "ship_sunk s B" "(x, y) \<in> ship_zone B"
      unfolding game_inv_def by blast
    from lawful_unique [OF law A B(1) c B(3)] have "A = B" .
    with B(2) c nt show False by (cases A) auto
  qed
  ultimately show ?thesis using nt by (simp add: legal_def del: in_bounds.simps)
qed

lemmas fleet_unfold = three_cells_def report_def ship_sunk.simps

subsection \<open>An active pursuit finds a legal cell\<close>

lemma first_free_legal_member:
  "first_free s cs = Cell x y \<Longrightarrow> legal s x y \<and> (x, y) \<in> set cs"
  using first_free_cases [of s cs] by (auto simp: legal_def simp del: in_bounds.simps)

lemma pick_active:
  assumes law: "lawful_fleet b fl" and inv: "game_inv b fl s"
    and act: "active (current_ship_info s)"
  shows "\<exists>x y. pick_cell s rng = Some (Inr (Cell x y)) \<and> legal s x y
           \<and> probe_at (current_ship_info s) x y"
proof -
  from inv act obtain A where A: "A \<in> set fl" "lies_on s A" and ns: "\<not> ship_sunk s A"
    by (auto simp: game_inv_def)
  obtain x1 y1 x2 y2 where As: "A = Ship x1 y1 x2 y2" by (cases A)
  from A(2) obtain sx sy ex ey where
    st: "start (current_ship_info s) = Cell sx sy" and en: "endc (current_ship_info s) = Cell ex ey"
    and box: "x1 \<le> sx" "sx \<le> ex" "ex \<le> x2" "y1 \<le> sy" "sy \<le> ey" "ey \<le> y2"
    and tr: "\<And>x y. x1 \<le> x \<and> x \<le> x2 \<and> y1 \<le> y \<and> y \<le> y2 \<Longrightarrow>
              (Cell x y \<in> tracker s) = (sx \<le> x \<and> x \<le> ex \<and> sy \<le> y \<and> y \<le> ey)"
    and dir: "case direction (current_ship_info s) of
              None \<Rightarrow> sx = ex \<and> sy = ey \<and> \<not> start_found (current_ship_info s)
            | Some H \<Rightarrow> sx < ex \<and> sy = ey \<and> (start_found (current_ship_info s) \<longrightarrow> sx = x1)
            | Some V \<Rightarrow> sx = ex \<and> sy < ey \<and> (start_found (current_ship_info s) \<longrightarrow> sy = y1)"
    unfolding As by auto
  have uns: "\<not> (sx = x1 \<and> ex = x2 \<and> sy = y1 \<and> ey = y2)"
  proof
    assume "sx = x1 \<and> ex = x2 \<and> sy = y1 \<and> ey = y2"
    with tr have "ship_sunk s A" unfolding As by auto
    with ns show False ..
  qed
  have straight: "x1 = x2 \<or> y1 = y2"
    using lawful_fits [OF law A(1)] by (simp add: As)
  have leg: "legal s x y" if "x1 \<le> x" "x \<le> x2" "y1 \<le> y" "y \<le> y2"
    "\<not> (sx \<le> x \<and> x \<le> ex \<and> sy \<le> y \<and> y \<le> ey)" for x y
  proof -
    have "(x, y) \<in> ship_cells A" using that by (simp add: As)
    moreover have "Cell x y \<notin> tracker s" using tr [of x y] that by simp
    ultimately show ?thesis by (rule ship_cell_legal [OF law inv A(1)])
  qed
  show ?thesis
  proof (cases "direction (current_ship_info s)")
    case None
    with dir have eq: "sx = ex" "sy = ey" by simp_all
    let ?cs = "[(sx - 1, sy), (sx, sy - 1), (sx + 1, sy), (sx, sy + 1)]"
    have "\<exists>c\<in>set ?cs. legal s (fst c) (snd c)"
    proof -
      from uns eq box consider "x1 < sx" | "sx < x2" | "y1 < sy" | "sy < y2" by linarith
      then show ?thesis
      proof cases
        case 1 with box eq have "legal s (sx - 1) sy" by (intro leg) auto
        then show ?thesis by simp
      next
        case 2 with box eq have "legal s (sx + 1) sy" by (intro leg) auto
        then show ?thesis by simp
      next
        case 3 with box eq have "legal s sx (sy - 1)" by (intro leg) auto
        then show ?thesis by simp
      next
        case 4 with box eq have "legal s sx (sy + 1)" by (intro leg) auto
        then show ?thesis by simp
      qed
    qed
    from first_free_exists [OF this] obtain x y where ff: "first_free s ?cs = Cell x y" by blast
    from first_free_legal_member [OF ff] have "legal s x y" "(x, y) \<in> set ?cs" by simp_all
    moreover have "pick_cell s rng = Some (Inr (Cell x y))"
      using act None st ff by (simp add: pick_cell_def choose_around_cell_Cell del: first_free.simps)
    ultimately show ?thesis using None st en eq by (auto simp: probe_at_def)
  next
    case (Some d)
    show ?thesis
    proof (cases d)
      case H
      with dir Some have h: "sx < ex" "sy = ey" "start_found (current_ship_info s) \<longrightarrow> sx = x1"
        by simp_all
      with box straight have yy: "y1 = y2" by linarith
      show ?thesis
      proof (cases "\<not> start_found (current_ship_info s) \<and> legal s (sx - 1) sy")
        case True
        with act Some H st en have "pick_cell s rng = Some (Inr (Cell (sx - 1) sy))"
          by (simp add: pick_cell_def check_left_Cell)
        with True Some H st en show ?thesis by (auto simp: probe_at_def)
      next
        case False
        have "sx = x1"
        proof (rule ccontr)
          assume n: "sx \<noteq> x1"
          with h have nsf: "\<not> start_found (current_ship_info s)" by blast
          from n box h have "legal s (sx - 1) sy" by (intro leg) auto
          with nsf False show False by blast
        qed
        with uns h yy box have "ex < x2" by linarith
        with box h yy have r: "legal s (ex + 1) ey" by (intro leg) auto
        from False act Some H st en r have "pick_cell s rng = Some (Inr (Cell (ex + 1) ey))"
          by (auto simp: pick_cell_def check_left_Cell check_right_Cell)
        with r Some H st en show ?thesis by (auto simp: probe_at_def)
      qed
    next
      case V
      with dir Some have h: "sx = ex" "sy < ey" "start_found (current_ship_info s) \<longrightarrow> sy = y1"
        by simp_all
      with box straight have xx: "x1 = x2" by linarith
      show ?thesis
      proof (cases "\<not> start_found (current_ship_info s) \<and> legal s sx (sy - 1)")
        case True
        with act Some V st en have "pick_cell s rng = Some (Inr (Cell sx (sy - 1)))"
          by (simp add: pick_cell_def check_above_Cell)
        with True Some V st en show ?thesis by (auto simp: probe_at_def)
      next
        case False
        have "sy = y1"
        proof (rule ccontr)
          assume n: "sy \<noteq> y1"
          with h have nsf: "\<not> start_found (current_ship_info s)" by blast
          from n box h have "legal s sx (sy - 1)" by (intro leg) auto
          with nsf False show False by blast
        qed
        with uns h xx box have "ey < y2" by linarith
        with box h xx have r: "legal s ex (ey + 1)" by (intro leg) auto
        from False act Some V st en r have "pick_cell s rng = Some (Inr (Cell ex (ey + 1)))"
          by (auto simp: pick_cell_def check_above_Cell check_below_Cell)
        with r Some V st en show ?thesis by (auto simp: probe_at_def)
      qed
    qed
  qed
qed

subsection \<open>A hit keeps the pursuit on its ship\<close>

lemma update_lies_on:
  assumes lo: "lies_on s (Ship x1 y1 x2 y2)" and act: "active (current_ship_info s)"
    and hs: "hits (current_ship_info s) \<noteq> []"
    and pr: "probe_at (current_ship_info s) x y"
    and c: "x1 \<le> x" "x \<le> x2" "y1 \<le> y" "y \<le> y2"
    and nt: "Cell x y \<notin> tracker s"
  shows "\<exists>s'. update_current_ship (s\<lparr>tracker := insert (Cell x y) (tracker s), last_hit := Cell x y\<rparr>)
                 (Cell x y) = Inr s'
           \<and> tracker s' = insert (Cell x y) (tracker s) \<and> dont_choose s' = dont_choose s
           \<and> board s' = board s \<and> last_hit s' = Cell x y
           \<and> active (current_ship_info s') \<and> hits (current_ship_info s') \<noteq> []
           \<and> lies_on s' (Ship x1 y1 x2 y2)"
proof -
  from lo obtain sx sy ex ey where
    st: "start (current_ship_info s) = Cell sx sy" and en: "endc (current_ship_info s) = Cell ex ey"
    and box: "x1 \<le> sx" "sx \<le> ex" "ex \<le> x2" "y1 \<le> sy" "sy \<le> ey" "ey \<le> y2"
    and tr: "\<forall>x y. x1 \<le> x \<and> x \<le> x2 \<and> y1 \<le> y \<and> y \<le> y2 \<longrightarrow>
              (Cell x y \<in> tracker s) = (sx \<le> x \<and> x \<le> ex \<and> sy \<le> y \<and> y \<le> ey)"
    and dir: "case direction (current_ship_info s) of
              None \<Rightarrow> sx = ex \<and> sy = ey \<and> \<not> start_found (current_ship_info s)
            | Some H \<Rightarrow> sx < ex \<and> sy = ey \<and> (start_found (current_ship_info s) \<longrightarrow> sx = x1)
            | Some V \<Rightarrow> sx = ex \<and> sy < ey \<and> (start_found (current_ship_info s) \<longrightarrow> sy = y1)"
    by auto
  have len: "length (hits (current_ship_info s) @ [Cell x y]) \<noteq> 1"
    using hs by (cases "hits (current_ship_info s)") simp_all
  show ?thesis
  proof (cases "direction (current_ship_info s)")
    case None
    with dir have eq: "ex = sx" "ey = sy" "\<not> start_found (current_ship_info s)" by simp_all
    from pr None st en eq consider
      "x = sx - 1" "y = sy" | "x = sx" "y = sy - 1" | "x = sx + 1" "y = sy" | "x = sx" "y = sy + 1"
      by (auto simp: probe_at_def)
    then show ?thesis
    proof cases
      case 1
      with None st en eq act len tr box c show ?thesis
        by (auto simp: update_current_ship_def infer_direction_def extend_boundaries_def Let_def)
    next
      case 2
      with None st en eq act len tr box c show ?thesis
        by (auto simp: update_current_ship_def infer_direction_def extend_boundaries_def Let_def)
    next
      case 3
      with None st en eq act len tr box c show ?thesis
        by (auto simp: update_current_ship_def infer_direction_def extend_boundaries_def Let_def)
    next
      case 4
      with None st en eq act len tr box c show ?thesis
        by (auto simp: update_current_ship_def infer_direction_def extend_boundaries_def Let_def)
    qed
  next
    case (Some d)
    show ?thesis
    proof (cases d)
      case H
      with dir Some have h: "sx < ex" "sy = ey" "start_found (current_ship_info s) \<longrightarrow> sx = x1"
        by simp_all
      from pr Some H st en consider "x = sx - 1" "y = sy" "\<not> start_found (current_ship_info s)"
        | "x = ex + 1" "y = ey"
        by (auto simp: probe_at_def)
      then show ?thesis
      proof cases
        case 1
        with Some H st en h act tr box c show ?thesis
          by (auto simp: update_current_ship_def extend_boundaries_def Let_def)
      next
        case 2
        with Some H st en h act tr box c show ?thesis
          by (auto simp: update_current_ship_def extend_boundaries_def Let_def)
      qed
    next
      case V
      with dir Some have h: "sx = ex" "sy < ey" "start_found (current_ship_info s) \<longrightarrow> sy = y1"
        by simp_all
      from pr Some V st en consider "x = sx" "y = sy - 1" "\<not> start_found (current_ship_info s)"
        | "x = ex" "y = ey + 1"
        by (auto simp: probe_at_def)
      then show ?thesis
      proof cases
        case 1
        with Some V st en h act tr box c show ?thesis
          by (auto simp: update_current_ship_def extend_boundaries_def Let_def)
      next
        case 2
        with Some V st en h act tr box c show ?thesis
          by (auto simp: update_current_ship_def extend_boundaries_def Let_def)
      qed
    qed
  qed
qed

subsection \<open>A miss preserves the invariant\<close>

lemma ship_sunk_mono: "tracker s \<subseteq> tracker t \<Longrightarrow> ship_sunk s A \<Longrightarrow> ship_sunk t A"
  by (cases A) auto

lemma untouched_insert:
  "untouched s A \<Longrightarrow> (x, y) \<notin> ship_cells A \<Longrightarrow> tracker t = insert (Cell x y) (tracker s) \<Longrightarrow>
   untouched t A"
  by (cases A) auto

lemma others_kept:
  assumes "ship_sunk s B \<or> untouched s B" and "(x, y) \<notin> ship_cells B"
    and "tracker t = insert (Cell x y) (tracker s)"
  shows "ship_sunk t B \<or> untouched t B"
  using assms ship_sunk_mono [of s t B] untouched_insert [of s B x y t] by auto

lemma zones_kept:
  assumes "\<forall>c\<in>dont_choose s. \<exists>A\<in>set fl. ship_sunk s A \<and> c \<in> ship_zone A"
    and "tracker s \<subseteq> tracker t" and "dont_choose t = dont_choose s"
  shows "\<forall>c\<in>dont_choose t. \<exists>A\<in>set fl. ship_sunk t A \<and> c \<in> ship_zone A"
  using assms ship_sunk_mono [of s t] by metis

lemma lies_on_miss:
  assumes "lies_on s A" and "(x, y) \<notin> ship_cells A"
    and "tracker t = insert (Cell x y) (tracker s)"
    and "current_ship_info t = current_ship_info s"
  shows "lies_on t A"
proof (cases A)
  case (Ship x1 y1 x2 y2)
  show ?thesis
    using assms(1,2) unfolding Ship lies_on.simps assms(4) assms(3) by auto
qed

lemma not_sunk_miss:
  assumes "\<not> ship_sunk s A" and "(x, y) \<notin> ship_cells A"
    and "tracker t = insert (Cell x y) (tracker s)"
  shows "\<not> ship_sunk t A"
  using assms by (cases A) auto

lemma miss_game_inv:
  assumes law: "lawful_fleet b fl" and inv: "game_inv b fl s"
    and pr: "active (current_ship_info s) \<Longrightarrow> probe_at (current_ship_info s) x y"
    and nt: "Cell x y \<notin> tracker s"
    and miss: "\<forall>A\<in>set fl. (x, y) \<notin> ship_cells A"
    and rr: "receive_result (s\<lparr>tracker := insert (Cell x y) (tracker s), last_hit := Cell x y\<rparr>)
               False False = Inr s2"
  shows "game_inv b fl s2"
proof -
  define s1 where "s1 = s\<lparr>tracker := insert (Cell x y) (tracker s), last_hit := Cell x y\<rparr>"
  have s1: "tracker s1 = insert (Cell x y) (tracker s)" "dont_choose s1 = dont_choose s"
    "board s1 = board s" "current_ship_info s1 = current_ship_info s" "last_hit s1 = Cell x y"
    by (simp_all add: s1_def)
  from rr have rr1: "receive_result s1 False False = Inr s2" by (simp add: s1_def)
  have b: "board s = b" using inv by (simp add: game_inv_def)
  have z: "\<forall>c\<in>dont_choose s. \<exists>A\<in>set fl. ship_sunk s A \<and> c \<in> ship_zone A"
    using inv by (simp add: game_inv_def)
  show ?thesis
  proof (cases "active (current_ship_info s)")
    case False
    with rr1 s1 have s2: "s2 = s1\<lparr>tracker := insert (Cell x y) (tracker s1)\<rparr>"
      by (simp add: receive_result_def)
    have t2: "tracker s2 = insert (Cell x y) (tracker s)" "dont_choose s2 = dont_choose s"
      "board s2 = board s" "current_ship_info s2 = current_ship_info s"
      using s1 by (auto simp: s2)
    have "\<forall>B\<in>set fl. ship_sunk s2 B \<or> untouched s2 B"
      using inv False miss others_kept [OF _ _ t2(1)] by (auto simp: game_inv_def)
    moreover have "\<forall>c\<in>dont_choose s2. \<exists>A\<in>set fl. ship_sunk s2 A \<and> c \<in> ship_zone A"
      by (rule zones_kept [OF z]) (auto simp: t2)
    ultimately show ?thesis using inv False b t2 by (simp add: game_inv_def)
  next
    case True
    from inv True obtain A where A: "A \<in> set fl" "lies_on s A" "\<not> ship_sunk s A"
      and oth: "\<forall>B\<in>set fl. B \<noteq> A \<longrightarrow> ship_sunk s B \<or> untouched s B"
      and hs: "hits (current_ship_info s) \<noteq> []"
      by (auto simp: game_inv_def)
    from miss A have cA: "(x, y) \<notin> ship_cells A" by blast
    have t2: "tracker s2 = insert (Cell x y) (tracker s) \<and> dont_choose s2 = dont_choose s
      \<and> board s2 = board s \<and> active (current_ship_info s2)
      \<and> hits (current_ship_info s2) = hits (current_ship_info s) \<and> lies_on s2 A"
    proof (cases "direction (current_ship_info s)")
      case None
      with rr1 s1 True have s2: "s2 = s1\<lparr>tracker := insert (Cell x y) (tracker s1)\<rparr>"
        by (simp add: receive_result_def)
      have "lies_on s2 A"
        by (rule lies_on_miss [OF A(2) cA]) (auto simp: s2 s1)
      then show ?thesis using s1 True by (auto simp: s2)
    next
      case (Some d)
      with rr1 s1 True have fe: "found_end s1 (Cell x y) = Inr s2"
        by (simp add: receive_result_def)
      obtain x1 y1 x2 y2 where As: "A = Ship x1 y1 x2 y2" by (cases A)
      from A(2) obtain sx sy ex ey where
        st: "start (current_ship_info s) = Cell sx sy" and en: "endc (current_ship_info s) = Cell ex ey"
        and box: "x1 \<le> sx" "sx \<le> ex" "ex \<le> x2" "y1 \<le> sy" "sy \<le> ey" "ey \<le> y2"
        and tr: "\<forall>x y. x1 \<le> x \<and> x \<le> x2 \<and> y1 \<le> y \<and> y \<le> y2 \<longrightarrow>
              (Cell x y \<in> tracker s) = (sx \<le> x \<and> x \<le> ex \<and> sy \<le> y \<and> y \<le> ey)"
        and dir: "case direction (current_ship_info s) of
              None \<Rightarrow> sx = ex \<and> sy = ey \<and> \<not> start_found (current_ship_info s)
            | Some H \<Rightarrow> sx < ex \<and> sy = ey \<and> (start_found (current_ship_info s) \<longrightarrow> sx = x1)
            | Some V \<Rightarrow> sx = ex \<and> sy < ey \<and> (start_found (current_ship_info s) \<longrightarrow> sy = y1)"
        unfolding As by auto
      from cA have out: "\<not> (x1 \<le> x \<and> x \<le> x2 \<and> y1 \<le> y \<and> y \<le> y2)" by (simp add: As)
      show ?thesis
      proof (cases d)
        case H
        with dir Some have h: "sx < ex" "sy = ey" "start_found (current_ship_info s) \<longrightarrow> sx = x1"
          by simp_all
        from pr [OF True] Some H st en consider "x = sx - 1" "y = sy" | "x = ex + 1" "y = ey"
          by (auto simp: probe_at_def)
        then show ?thesis
        proof cases
          case 1
          with out box h have "sx = x1" by linarith
          with fe 1 Some H st en h s1 True tr box out show ?thesis
            unfolding As by (auto simp: found_end_def Let_def s1_def)
        next
          case 2
          with fe Some H st en h s1 True tr box out show ?thesis
            unfolding As by (auto simp: found_end_def Let_def s1_def)
        qed
      next
        case V
        with dir Some have h: "sx = ex" "sy < ey" "start_found (current_ship_info s) \<longrightarrow> sy = y1"
          by simp_all
        from pr [OF True] Some V st en consider "x = sx" "y = sy - 1" | "x = ex" "y = ey + 1"
          by (auto simp: probe_at_def)
        then show ?thesis
        proof cases
          case 1
          with out box h have "sy = y1" by linarith
          with fe 1 Some V st en h s1 True tr box out show ?thesis
            unfolding As by (auto simp: found_end_def Let_def s1_def)
        next
          case 2
          with fe Some V st en h s1 True tr box out show ?thesis
            unfolding As by (auto simp: found_end_def Let_def s1_def)
        qed
      qed
    qed
    have "\<not> ship_sunk s2 A"
      by (rule not_sunk_miss [OF A(3) cA]) (simp add: t2)
    moreover have "\<forall>B\<in>set fl. B \<noteq> A \<longrightarrow> ship_sunk s2 B \<or> untouched s2 B"
      using oth miss others_kept [of s _ x y s2] t2 by blast
    ultimately have ex: "\<exists>A\<in>set fl. lies_on s2 A \<and> \<not> ship_sunk s2 A
        \<and> (\<forall>B\<in>set fl. B \<noteq> A \<longrightarrow> ship_sunk s2 B \<or> untouched s2 B)"
      using A(1) t2 by blast
    have "\<forall>c\<in>dont_choose s2. \<exists>A\<in>set fl. ship_sunk s2 A \<and> c \<in> ship_zone A"
      by (rule zones_kept [OF z]) (auto simp: t2)
    with ex show ?thesis using hs b t2 unfolding game_inv_def by simp
  qed
qed

subsection \<open>A hit preserves the invariant\<close>

lemma probe_in_zone:
  assumes "lies_on s A" and "probe_at (current_ship_info s) x y"
  shows "(x, y) \<in> ship_zone A"
proof (cases A)
  case (Ship x1 y1 x2 y2)
  from assms(1) obtain sx sy ex ey where
    "start (current_ship_info s) = Cell sx sy" "endc (current_ship_info s) = Cell ex ey"
    "x1 \<le> sx" "sx \<le> ex" "ex \<le> x2" "y1 \<le> sy" "sy \<le> ey" "ey \<le> y2"
    unfolding Ship by auto
  with assms(2) show ?thesis unfolding Ship
    by (cases "direction (current_ship_info s)")
       (auto simp: probe_at_def split: orientation.splits)
qed

lemma sunk_zone_kept:
  assumes z: "\<forall>c\<in>dont_choose s. \<exists>A\<in>set fl. ship_sunk s A \<and> c \<in> ship_zone A"
    and sub: "tracker s \<subseteq> tracker t"
    and A: "A \<in> set fl" "ship_sunk t A"
    and dc: "dont_choose t \<subseteq> dont_choose s \<union> ship_zone A"
  shows "\<forall>c\<in>dont_choose t. \<exists>A\<in>set fl. ship_sunk t A \<and> c \<in> ship_zone A"
proof
  fix c assume "c \<in> dont_choose t"
  with dc have "c \<in> dont_choose s \<or> c \<in> ship_zone A" by blast
  then show "\<exists>A\<in>set fl. ship_sunk t A \<and> c \<in> ship_zone A"
  proof
    assume "c \<in> dont_choose s"
    with z obtain B where "B \<in> set fl" "ship_sunk s B" "c \<in> ship_zone B" by blast
    with ship_sunk_mono [OF sub] show ?thesis by blast
  next
    assume "c \<in> ship_zone A"
    with A show ?thesis by blast
  qed
qed

lemma hit_game_inv:
  assumes law: "lawful_fleet b fl" and inv: "game_inv b fl s"
    and pr: "active (current_ship_info s) \<Longrightarrow> probe_at (current_ship_info s) x y"
    and nt: "Cell x y \<notin> tracker s"
    and B: "B \<in> set fl" "(x, y) \<in> ship_cells B"
    and rr: "receive_result (s\<lparr>tracker := insert (Cell x y) (tracker s), last_hit := Cell x y\<rparr>)
               True (ship_sunk (s\<lparr>tracker := insert (Cell x y) (tracker s), last_hit := Cell x y\<rparr>) B)
             = Inr s2"
  shows "game_inv b fl s2"
proof -
  define s1 where "s1 = s\<lparr>tracker := insert (Cell x y) (tracker s), last_hit := Cell x y\<rparr>"
  have s1: "tracker s1 = insert (Cell x y) (tracker s)" "dont_choose s1 = dont_choose s"
    "board s1 = board s" "current_ship_info s1 = current_ship_info s" "last_hit s1 = Cell x y"
    by (simp_all add: s1_def)
  from rr have rr1: "receive_result s1 True (ship_sunk s1 B) = Inr s2" by (simp add: s1_def)
  have b: "board s = b" using inv by (simp add: game_inv_def)
  have z: "\<forall>c\<in>dont_choose s. \<exists>A\<in>set fl. ship_sunk s A \<and> c \<in> ship_zone A"
    using inv by (simp add: game_inv_def)
  obtain x1 y1 x2 y2 where Bs: "B = Ship x1 y1 x2 y2" by (cases B)
  from B(2) have c: "x1 \<le> x" "x \<le> x2" "y1 \<le> y" "y \<le> y2" by (simp_all add: Bs)
  have others: "ship_sunk t B' \<or> untouched t B'"
    if "B' \<in> set fl" "B' \<noteq> B" "ship_sunk s B' \<or> untouched s B'"
      "tracker t = insert (Cell x y) (tracker s)" for B' t
  proof -
    have "(x, y) \<notin> ship_cells B'"
    proof
      assume "(x, y) \<in> ship_cells B'"
      from lawful_unique [OF law that(1) B(1) this ship_cells_zone [OF B(2)]] that(2)
      show False by simp
    qed
    from others_kept [OF that(3) this that(4)] show ?thesis .
  qed
  show ?thesis
  proof (cases "active (current_ship_info s)")
    case False
    from inv False have idle: "direction (current_ship_info s) = None"
      "hits (current_ship_info s) = []" "\<not> start_found (current_ship_info s)"
      and all: "\<forall>B\<in>set fl. ship_sunk s B \<or> untouched s B"
      by (auto simp: game_inv_def)
    from all B(1) nt c have unt: "untouched s B" unfolding Bs by auto
    show ?thesis
    proof (cases "ship_sunk s1 B")
      case True
      have only: "p = x \<and> q = y" if "x1 \<le> p" "p \<le> x2" "y1 \<le> q" "q \<le> y2" for p q
      proof -
        from True that have "Cell p q \<in> tracker s1" unfolding Bs by simp
        moreover from unt that have "Cell p q \<notin> tracker s" unfolding Bs by simp
        ultimately show ?thesis using s1 by simp
      qed
      have one: "x1 = x" "x2 = x" "y1 = y" "y2 = y"
        using only [OF order_refl order_trans [OF c(1,2)] c(3,4)]
          only [OF order_trans [OF c(1,2)] order_refl c(3,4)]
          only [OF c(1,2) order_refl order_trans [OF c(3,4)]]
          only [OF c(1,2) order_trans [OF c(3,4)] order_refl]
        by blast+
      have t2: "tracker s2 = insert (Cell x y) (tracker s) \<and> board s2 = board s
        \<and> dont_choose s2 = dont_choose s \<union> {x - 1 .. x + 1} \<times> {y - 1 .. y + 1}
        \<and> \<not> active (current_ship_info s2) \<and> direction (current_ship_info s2) = None
        \<and> hits (current_ship_info s2) = [] \<and> \<not> start_found (current_ship_info s2)"
        using rr1 True s1 idle
        by (auto simp: receive_result_def update_current_ship_def infer_direction_def
              extend_boundaries_def Let_def dont_hit_nearby_cells_Cell reset_current_ship_def)
      have sB: "ship_sunk s2 B" using True s1 t2 unfolding Bs by auto
      have "\<forall>c\<in>dont_choose s2. \<exists>A\<in>set fl. ship_sunk s2 A \<and> c \<in> ship_zone A"
        by (rule sunk_zone_kept [OF z _ B(1) sB]) (auto simp: t2 Bs one)
      moreover have "\<forall>B'\<in>set fl. ship_sunk s2 B' \<or> untouched s2 B'"
        using others [OF _ _ _ t2 [THEN conjunct1]] all sB by blast
      ultimately show ?thesis using t2 b by (simp add: game_inv_def)
    next
      case ns: False
      with rr1 False s1 have s2: "s2 = initialise_ship s1 (Cell x y)"
        by (simp add: receive_result_def)
      have t2: "tracker s2 = insert (Cell x y) (tracker s)" "board s2 = board s"
        "dont_choose s2 = dont_choose s" "active (current_ship_info s2)"
        "hits (current_ship_info s2) \<noteq> []"
        using s1 by (simp_all add: s2 initialise_ship_def)
      have "lies_on s2 B"
        using unt c idle s1 unfolding Bs by (auto simp: s2 initialise_ship_def)
      moreover have "\<not> ship_sunk s2 B" using ns s1 t2 unfolding Bs by auto
      moreover have "\<forall>B'\<in>set fl. B' \<noteq> B \<longrightarrow> ship_sunk s2 B' \<or> untouched s2 B'"
        using others [OF _ _ _ t2(1)] all by blast
      ultimately have ex: "\<exists>A\<in>set fl. lies_on s2 A \<and> \<not> ship_sunk s2 A
          \<and> (\<forall>B\<in>set fl. B \<noteq> A \<longrightarrow> ship_sunk s2 B \<or> untouched s2 B)"
        using B(1) by blast
      have "\<forall>c\<in>dont_choose s2. \<exists>A\<in>set fl. ship_sunk s2 A \<and> c \<in> ship_zone A"
        by (rule zones_kept [OF z]) (auto simp: t2)
      with ex show ?thesis using t2 b unfolding game_inv_def by simp
    qed
  next
    case True
    from inv True obtain A where A: "A \<in> set fl" "lies_on s A" "\<not> ship_sunk s A"
      and oth: "\<forall>B\<in>set fl. B \<noteq> A \<longrightarrow> ship_sunk s B \<or> untouched s B"
      and hs: "hits (current_ship_info s) \<noteq> []"
      by (auto simp: game_inv_def)
    from lawful_unique [OF law B(1) A(1) B(2) probe_in_zone [OF A(2) pr [OF True]]]
    have BA: "B = A" .
    from update_lies_on [OF A(2) [folded BA, unfolded Bs] True hs pr [OF True] c nt]
    obtain s' where u: "update_current_ship s1 (Cell x y) = Inr s'"
      and t': "tracker s' = insert (Cell x y) (tracker s)" "dont_choose s' = dont_choose s"
        "board s' = board s" "last_hit s' = Cell x y" "active (current_ship_info s')"
        "hits (current_ship_info s') \<noteq> []"
      and lo: "lies_on s' (Ship x1 y1 x2 y2)"
      unfolding s1_def by blast
    show ?thesis
    proof (cases "ship_sunk s1 B")
      case False
      with rr1 True s1 u have s2: "s2 = s'" by (simp add: receive_result_def)
      have "lies_on s2 B" using lo unfolding s2 Bs .
      moreover have "\<not> ship_sunk s2 B" using False s1 t' unfolding Bs s2 by auto
      moreover have "\<forall>B'\<in>set fl. B' \<noteq> B \<longrightarrow> ship_sunk s2 B' \<or> untouched s2 B'"
        using others [OF _ _ _ t'(1)] oth BA unfolding s2 by blast
      ultimately have ex: "\<exists>A\<in>set fl. lies_on s2 A \<and> \<not> ship_sunk s2 A
          \<and> (\<forall>B\<in>set fl. B \<noteq> A \<longrightarrow> ship_sunk s2 B \<or> untouched s2 B)"
        using B(1) by blast
      have "\<forall>c\<in>dont_choose s2. \<exists>A\<in>set fl. ship_sunk s2 A \<and> c \<in> ship_zone A"
        unfolding s2 by (rule zones_kept [OF z]) (auto simp: t')
      with ex show ?thesis using t' b unfolding game_inv_def s2 by simp
    next
      case sunk: True
      from lo obtain sx sy ex ey where
        se: "start (current_ship_info s') = Cell sx sy" "endc (current_ship_info s') = Cell ex ey"
        and box: "x1 \<le> sx" "sx \<le> ex" "ex \<le> x2" "y1 \<le> sy" "sy \<le> ey" "ey \<le> y2"
        by auto
      from rr1 sunk u s1(5) have s2: "s2 = reset_current_ship
          (s'\<lparr>dont_choose := dont_choose s' \<union> {sx - 1 .. ex + 1} \<times> {sy - 1 .. ey + 1}\<rparr>)"
        by (simp add: receive_result_def dont_hit_nearby_cells_Cell [OF se])
      have t2: "tracker s2 = insert (Cell x y) (tracker s)" "board s2 = board s"
        "dont_choose s2 = dont_choose s \<union> {sx - 1 .. ex + 1} \<times> {sy - 1 .. ey + 1}"
        "\<not> active (current_ship_info s2)" "direction (current_ship_info s2) = None"
        "hits (current_ship_info s2) = []" "\<not> start_found (current_ship_info s2)"
        using t' by (simp_all add: s2 reset_current_ship_def)
      have sB: "ship_sunk s2 B" using sunk s1 t2 unfolding Bs by auto
      have "\<forall>c\<in>dont_choose s2. \<exists>A\<in>set fl. ship_sunk s2 A \<and> c \<in> ship_zone A"
        by (rule sunk_zone_kept [OF z _ B(1) sB]) (use box in \<open>auto simp: t2 Bs\<close>)
      moreover have "\<forall>B'\<in>set fl. ship_sunk s2 B' \<or> untouched s2 B'"
      proof
        fix B' assume m: "B' \<in> set fl"
        show "ship_sunk s2 B' \<or> untouched s2 B'"
        proof (cases "B' = B")
          case True
          with sB show ?thesis by simp
        next
          case False
          with oth BA m have "ship_sunk s B' \<or> untouched s B'" by simp
          from others [OF m False this t2(1)] show ?thesis .
        qed
      qed
      ultimately show ?thesis using t2 b by (simp add: game_inv_def)
    qed
  qed
qed

subsection \<open>Every turn preserves the invariant\<close>

lemma turn_game_inv:
  assumes law: "lawful_fleet b fl" and inv: "game_inv b fl s"
    and st: "select_target s rng = Some (Inr (v, s1))"
    and rr: "receive_result s1 (fst (report fl s1)) (snd (report fl s1)) = Inr s2"
  shows "game_inv b fl s2"
proof -
  have s1: "s1 = s\<lparr>tracker := insert v (tracker s), last_hit := v\<rparr>"
    by (rule select_target_state [OF st])
  have pc: "pick_cell s rng = Some (Inr v)" by (rule select_target_pick [OF st])
  have "\<exists>x y. v = Cell x y \<and> legal s x y
          \<and> (active (current_ship_info s) \<longrightarrow> probe_at (current_ship_info s) x y)"
  proof (cases "active (current_ship_info s)")
    case True
    from pick_active [OF law inv True, of rng] pc show ?thesis by auto
  next
    case False
    with pc have "choose_randomly s rng = Some (Inr v)" by (simp add: pick_cell_def)
    from choose_randomly_legal [OF this] False show ?thesis by auto
  qed
  then obtain x y where v: "v = Cell x y" and leg: "legal s x y"
    and pr: "active (current_ship_info s) \<Longrightarrow> probe_at (current_ship_info s) x y"
    by blast
  from leg have nt: "Cell x y \<notin> tracker s" by (simp add: legal_def)
  have lh: "last_hit s1 = Cell x y" by (simp add: s1 v)
  show ?thesis
  proof (cases "\<exists>B\<in>set fl. (x, y) \<in> ship_cells B")
    case True
    then obtain B where B: "B \<in> set fl" "(x, y) \<in> ship_cells B" by blast
    from report_hit [OF law B lh] rr
    have r: "receive_result s1 True (ship_sunk s1 B) = Inr s2" by simp
    show ?thesis
    proof (rule hit_game_inv [OF law inv _ nt B])
      show "probe_at (current_ship_info s) x y" if "active (current_ship_info s)"
        using pr [OF that] .
      show "receive_result (s\<lparr>tracker := insert (Cell x y) (tracker s), last_hit := Cell x y\<rparr>)
              True (ship_sunk (s\<lparr>tracker := insert (Cell x y) (tracker s), last_hit := Cell x y\<rparr>) B)
            = Inr s2"
        using r unfolding s1 v .
    qed
  next
    case False
    then have m: "\<forall>A\<in>set fl. (x, y) \<notin> ship_cells A" by blast
    from report_miss [OF m lh] rr have r: "receive_result s1 False False = Inr s2" by simp
    show ?thesis
    proof (rule miss_game_inv [OF law inv _ nt m])
      show "probe_at (current_ship_info s) x y" if "active (current_ship_info s)"
        using pr [OF that] .
      show "receive_result (s\<lparr>tracker := insert (Cell x y) (tracker s), last_hit := Cell x y\<rparr>)
              False False = Inr s2"
        using r unfolding s1 v .
    qed
  qed
qed

lemma play_against_inv:
  "lawful_fleet b fl \<Longrightarrow> game_inv b fl s \<Longrightarrow> play_against fl s rngs = Some (Inr s') \<Longrightarrow>
   game_inv b fl s'"
proof (induction rngs arbitrary: s)
  case Nil
  then show ?case by simp
next
  case (Cons rng rngs)
  from Cons.prems(3) obtain v s1 s2 where
    st: "select_target s rng = Some (Inr (v, s1))"
    and rr: "receive_result s1 (fst (report fl s1)) (snd (report fl s1)) = Inr s2"
    and rest: "play_against fl s2 rngs = Some (Inr s')"
    by (auto split: option.splits sum.splits prod.splits)
  from turn_game_inv [OF Cons.prems(1,2) st rr] have "game_inv b fl s2" .
  from Cons.IH [OF Cons.prems(1) this rest] show ?case .
qed

lemma untouched_new: "untouched (new_player b) A"
  by (cases A) (simp add: new_player_def)

lemma new_player_game_inv: "game_inv b fl (new_player b)"
  using untouched_new [of b]
  by (simp add: game_inv_def) (simp add: new_player_def new_ship_info_def)

lemma choose_randomly_dry:
  "\<not> draws_reach_legal s rng \<Longrightarrow> 1 \<le> width (board s) \<Longrightarrow> 1 \<le> height (board s) \<Longrightarrow>
   choose_randomly s rng = None"
proof (induction s rng rule: choose_randomly.induct)
  case (1 s rx ry rng)
  let ?x = "1 + int rx mod width (board s)" and ?y = "1 + int ry mod height (board s)"
  from "1.prems" have nl: "\<not> legal s ?x ?y" and r: "\<not> draws_reach_legal s rng" by simp_all
  have "in_bounds s (?x, ?y)"
    using draw_in_range [OF "1.prems"(2), of rx] draw_in_range [OF "1.prems"(3), of ry] by simp
  with nl have f: "Cell ?x ?y \<in> tracker s \<or> (?x, ?y) \<in> dont_choose s"
    by (auto simp: legal_def simp del: in_bounds.simps)
  with "1.IH" [of ?x ?y] r "1.prems"(2,3) show ?case by (auto simp: randint_from_1)
qed simp_all

lemma draws_for_cell:
  assumes "legal s x y"
  shows "draws_reach_legal s [nat (x - 1), nat (y - 1)]"
proof -
  from assms have b: "1 \<le> x" "x \<le> width (board s)" "1 \<le> y" "y \<le> height (board s)"
    by (simp_all add: legal_def)
  then have "1 + int (nat (x - 1)) mod width (board s) = x"
    "1 + int (nat (y - 1)) mod height (board s) = y"
    by simp_all
  with assms show ?thesis by simp
qed


section \<open>The order of the extremities along every game\<close>

text \<open>
  Claim C7. Along every game that starts from a new player and alternates
  \<open>select_target\<close> and \<open>receive_result\<close>, whatever the random draws and
  whatever outcomes are reported for the value last returned: in every state the game
  reaches, between two turns and also between the \<open>select_target\<close> and the
  \<open>receive_result\<close> of a turn, \<open>start\<close> equals \<open>end\<close> while the direction
  is unknown, and once the direction is known \<open>start\<close>'s coordinate along the axis is
  at most \<open>end\<close>'s. The statement holds whether or not the pursuit is active.
\<close>

theorem extremities_ordered_along_games:
  assumes "play (new_player b) ts = Some (Inr s)"
  shows "start_le_end (current_ship_info s) \<and>
         (\<forall>rng c s1. select_target s rng = Some (Inr (c, s1)) \<longrightarrow>
            start_le_end (current_ship_info s1))"
proof -
  have inv: "pursuit_inv (current_ship_info s)"
    by (rule play_inv [OF new_player_inv assms])
  then have "start_le_end (current_ship_info s)" by (rule pursuit_inv_start_le_end)
  moreover have "start_le_end (current_ship_info s1)"
    if "select_target s rng = Some (Inr (c, s1))" for rng c s1
    using select_target_state [OF that] inv by (simp add: pursuit_inv_start_le_end)
  ultimately show ?thesis by blast
qed

text \<open>
  A game of two turns on the board of ten by ten: the random draw gives (4, 4), a hit;
  the first neighbour probed, (3, 4), is a hit too. The pursuit is then horizontal from
  (3, 4) to (4, 4).
\<close>

theorem extremities_ordered_along_games_witness:
  "\<exists>s. play (new_player board10) [([3, 3], True, False), ([], True, False)] = Some (Inr s)
       \<and> active (current_ship_info s)
       \<and> direction (current_ship_info s) = Some H
       \<and> start (current_ship_info s) = Cell 3 4
       \<and> endc (current_ship_info s) = Cell 4 4
       \<and> start_le_end (current_ship_info s)"
proof -
  have run: "play (new_player board10) [([3, 3], True, False), ([], True, False)] =
    Some (Inr \<lparr>board = board10, tracker = {Cell 3 4, Cell 4 4}, dont_choose = {},
      last_hit = Cell 3 4,
      current_ship_info = \<lparr>active = True, start = Cell 3 4, endc = Cell 4 4,
        direction = Some H, ship_length = Some 0, hits = [Cell 4 4, Cell 3 4],
        start_found = False, end_found = False\<rparr>\<rparr>)"
    by (simp add: play_unfold)
  from extremities_ordered_along_games [OF run] run show ?thesis by simp
qed

section \<open>Probing around the first hit\<close>

text \<open>
  Claim C8. With a pursuit active, its direction unknown and \<open>start\<close> the cell
  \<open>(x, y)\<close>, \<open>select_target\<close> looks at the four orthogonal neighbours of
  \<open>start\<close> in the order left, up, right, down and returns the first that is in
  bounds, not attempted and not excluded (and \<open>None\<close> when there is none). The
  choice does not depend on the random draws: any two lists of draws give the same
  result.
\<close>

theorem seeking_probes_in_fixed_order:
  assumes "active (current_ship_info s)"
    and "direction (current_ship_info s) = None"
    and "start (current_ship_info s) = Cell x y"
  shows "chooses s rng
           (case find (\<lambda>(a, b). legal s a b) [(x - 1, y), (x, y - 1), (x + 1, y), (x, y + 1)] of
              None \<Rightarrow> PNone | Some (a, b) \<Rightarrow> Cell a b)
         \<and> select_target s rng' = select_target s rng"
  using assms
  by (simp add: chooses_def select_target_def pick_cell_def choose_around_cell_Cell first_free_find
      del: first_free.simps find.simps)

text \<open>
  Around (4, 4) with (3, 4) attempted, the left neighbour is skipped and the upper one,
  (4, 3), is chosen, with or without draws.
\<close>

theorem seeking_probes_in_fixed_order_witness:
  "chooses (pursuing {Cell 4 4, Cell 3 4} (pursuit None (Cell 4 4) (Cell 4 4) [Cell 4 4])) [] (Cell 4 3)
   \<and> select_target (pursuing {Cell 4 4, Cell 3 4} (pursuit None (Cell 4 4) (Cell 4 4) [Cell 4 4])) [7, 7]
     = select_target (pursuing {Cell 4 4, Cell 3 4} (pursuit None (Cell 4 4) (Cell 4 4) [Cell 4 4])) []"
  using seeking_probes_in_fixed_order
    [of "pursuing {Cell 4 4, Cell 3 4} (pursuit None (Cell 4 4) (Cell 4 4) [Cell 4 4])" 4 4 "[]" "[7, 7]"]
  by (simp add: legal_def pursuing_def pursuit_def board10_def)

section \<open>Extending along a known direction\<close>

text \<open>
  Claim C6, amended. With a pursuit active from the cell \<open>(sx, sy)\<close> to the cell
  \<open>(ex, ey)\<close> and the direction horizontal: when \<open>start_found\<close> is false and
  the cell left of \<open>start\<close> is legal (in bounds, not attempted, not excluded),
  \<open>select_target\<close> returns that cell; when \<open>start_found\<close> is true or that cell
  is not legal, and the cell right of \<open>end\<close> is legal, it returns the cell right of
  \<open>end\<close>. For the vertical direction the same holds with the cell above
  \<open>start\<close> and the cell below \<open>end\<close>.
\<close>

theorem extension_probe_order:
  assumes "active (current_ship_info s)"
    and "start (current_ship_info s) = Cell sx sy"
    and "endc (current_ship_info s) = Cell ex ey"
  shows "(direction (current_ship_info s) = Some H \<and> \<not> start_found (current_ship_info s)
            \<and> legal s (sx - 1) sy \<longrightarrow> chooses s rng (Cell (sx - 1) sy))
       \<and> (direction (current_ship_info s) = Some H
            \<and> (start_found (current_ship_info s) \<or> \<not> legal s (sx - 1) sy)
            \<and> legal s (ex + 1) ey \<longrightarrow> chooses s rng (Cell (ex + 1) ey))
       \<and> (direction (current_ship_info s) = Some V \<and> \<not> start_found (current_ship_info s)
            \<and> legal s sx (sy - 1) \<longrightarrow> chooses s rng (Cell sx (sy - 1)))
       \<and> (direction (current_ship_info s) = Some V
            \<and> (start_found (current_ship_info s) \<or> \<not> legal s sx (sy - 1))
            \<and> legal s ex (ey + 1) \<longrightarrow> chooses s rng (Cell ex (ey + 1)))"
  using assms
  by (auto simp: chooses_def select_target_def pick_cell_def check_left_Cell check_right_Cell
        check_above_Cell check_below_Cell)

text \<open>
  With \<open>start = end = (2, 5)\<close> and \<open>start_found\<close> false: (1, 5) is returned
  when it is legal and (3, 5) when (1, 5) has been attempted; vertically, (2, 4) and
  then (2, 6).
\<close>

theorem extension_probe_order_witness:
  "chooses (pursuing {Cell 2 5} (pursuit (Some H) (Cell 2 5) (Cell 2 5) [Cell 2 5])) [] (Cell 1 5)
   \<and> chooses (pursuing {Cell 2 5, Cell 1 5} (pursuit (Some H) (Cell 2 5) (Cell 2 5) [Cell 2 5])) [] (Cell 3 5)
   \<and> chooses (pursuing {Cell 2 5} (pursuit (Some V) (Cell 2 5) (Cell 2 5) [Cell 2 5])) [] (Cell 2 4)
   \<and> chooses (pursuing {Cell 2 5, Cell 2 4} (pursuit (Some V) (Cell 2 5) (Cell 2 5) [Cell 2 5])) [] (Cell 2 6)"
  using
    extension_probe_order [of "pursuing {Cell 2 5} (pursuit (Some H) (Cell 2 5) (Cell 2 5) [Cell 2 5])" 2 5 2 5 "[]"]
    extension_probe_order [of "pursuing {Cell 2 5, Cell 1 5} (pursuit (Some H) (Cell 2 5) (Cell 2 5) [Cell 2 5])" 2 5 2 5 "[]"]
    extension_probe_order [of "pursuing {Cell 2 5} (pursuit (Some V) (Cell 2 5) (Cell 2 5) [Cell 2 5])" 2 5 2 5 "[]"]
    extension_probe_order [of "pursuing {Cell 2 5, Cell 2 4} (pursuit (Some V) (Cell 2 5) (Cell 2 5) [Cell 2 5])" 2 5 2 5 "[]"]
  by (simp add: legal_def pursuing_def pursuit_def board10_def)

text \<open>
  Claim C6 as first stated, "otherwise returns the cell immediately right of end", fails
  where that cell is not legal either: with \<open>start = end = (2, 5)\<close>, horizontal,
  and both (1, 5) and (3, 5) attempted, \<open>check_right\<close> answers \<open>False\<close> and
  \<open>select_target\<close> returns \<open>False\<close>, not (3, 5).
\<close>

theorem extension_returns_False_counterexample:
  "active (current_ship_info (pursuing {Cell 2 5, Cell 1 5, Cell 3 5} (pursuit (Some H) (Cell 2 5) (Cell 2 5) [Cell 2 5])))
   \<and> \<not> legal (pursuing {Cell 2 5, Cell 1 5, Cell 3 5} (pursuit (Some H) (Cell 2 5) (Cell 2 5) [Cell 2 5])) 1 5
   \<and> chooses (pursuing {Cell 2 5, Cell 1 5, Cell 3 5} (pursuit (Some H) (Cell 2 5) (Cell 2 5) [Cell 2 5])) [] PFalse
   \<and> \<not> chooses (pursuing {Cell 2 5, Cell 1 5, Cell 3 5} (pursuit (Some H) (Cell 2 5) (Cell 2 5) [Cell 2 5])) [] (Cell 3 5)"
  by (simp add: legal_def pursuing_def pursuit_def chooses_def play_unfold)

section \<open>The start extremity is not marked by select\_target\<close>

text \<open>
  Claim C1 says that \<open>select_target\<close> stores \<open>start_found = True\<close> when the
  probe on the start side is invalid. Lines 377 and 392 compare
  (\<open>== True\<close>) where they should assign, so the field stays false. In the game
  below the random draw gives (2, 5), a hit, and the left neighbour (1, 5) is a hit too:
  the pursuit is horizontal from (1, 5) to (2, 5) and the cell left of \<open>start\<close>,
  (0, 5), is out of bounds. \<open>select_target\<close> then returns (3, 5) and leaves
  \<open>start_found\<close> false.
\<close>

theorem start_found_not_stored:
  "\<exists>s s'. play (new_player board10) [([1, 4], True, False), ([], True, False)] = Some (Inr s)
      \<and> active (current_ship_info s)
      \<and> direction (current_ship_info s) = Some H
      \<and> start (current_ship_info s) = Cell 1 5
      \<and> start_found (current_ship_info s) = False
      \<and> \<not> in_bounds s (0, 5)
      \<and> select_target s [] = Some (Inr (Cell 3 5, s'))
      \<and> start_found (current_ship_info s') = False"
  by (simp add: play_unfold)

section \<open>What a miss changes\<close>

text \<open>
  Claim C9. \<open>receive_result\<close> with a miss (neither hit nor sunk): when no pursuit is
  active or the direction is unknown, only \<open>tracker\<close> changes (the last target is
  added to it); \<open>dont_choose\<close>, the pursuit and \<open>last_hit\<close> are unchanged.
  When a pursuit is active with a known direction, its extremities are cells ordered
  along the axis and the last target is a cell: \<open>start_found\<close> becomes true if the
  missed cell lies strictly beyond \<open>start\<close>, \<open>end_found\<close> becomes true if it
  lies strictly beyond \<open>end\<close>, and nothing else changes.
\<close>

theorem miss_changes:
  "(\<not> active (current_ship_info s) \<or> direction (current_ship_info s) = None \<longrightarrow>
      receive_result s False False = Inr (s\<lparr>tracker := insert (last_hit s) (tracker s)\<rparr>))
   \<and> (active (current_ship_info s) \<and> direction (current_ship_info s) = Some d
        \<and> start (current_ship_info s) = Cell sx sy \<and> endc (current_ship_info s) = Cell ex ey
        \<and> last_hit s = Cell cx cy \<and> along d sx sy \<le> along d ex ey \<longrightarrow>
      receive_result s False False =
        Inr (s\<lparr>current_ship_info := (current_ship_info s)
               \<lparr>start_found := start_found (current_ship_info s) \<or> along d cx cy < along d sx sy,
                end_found := end_found (current_ship_info s) \<or> along d ex ey < along d cx cy\<rparr>\<rparr>))"
  by (cases d) (auto simp: receive_result_def found_end_def Let_def)

text \<open>
  A miss at (4, 4) with no pursuit, and a miss at (2, 4) left of a horizontal pursuit
  from (3, 4) to (4, 4).
\<close>

theorem miss_changes_witness:
  "receive_result (idle {Cell 4 4} (Cell 4 4)) False False = Inr (idle {Cell 4 4} (Cell 4 4))
   \<and> receive_result ((pursuing {Cell 3 4, Cell 4 4, Cell 2 4} (pursuit (Some H) (Cell 3 4) (Cell 4 4) [Cell 4 4, Cell 3 4]))\<lparr>last_hit := Cell 2 4\<rparr>) False False
     = Inr ((pursuing {Cell 3 4, Cell 4 4, Cell 2 4} (pursuit (Some H) (Cell 3 4) (Cell 4 4) [Cell 4 4, Cell 3 4]))
             \<lparr>last_hit := Cell 2 4, current_ship_info := (pursuit (Some H) (Cell 3 4) (Cell 4 4) [Cell 4 4, Cell 3 4])\<lparr>start_found := True\<rparr>\<rparr>)"
  using miss_changes [of "idle {Cell 4 4} (Cell 4 4)" H 0 0 0 0 0 0]
    miss_changes [of "(pursuing {Cell 3 4, Cell 4 4, Cell 2 4} (pursuit (Some H) (Cell 3 4) (Cell 4 4) [Cell 4 4, Cell 3 4]))\<lparr>last_hit := Cell 2 4\<rparr>" H 3 4 4 4 2 4]
  by (simp add: idle_def pursuing_def pursuit_def new_ship_info_def)

section \<open>A ship sunk by the first hit on it\<close>

text \<open>
  Claim C10. With no pursuit active (the pursuit is empty: no direction, no hits) and a
  cell \<open>(x, y)\<close> as last target, \<open>receive_result\<close> with \<open>has_ship_sunk\<close> true
  raises nothing: it adds exactly the three by three block centred on the last target to
  \<open>dont_choose\<close> and leaves the pursuit inactive with no hits, so that the next
  \<open>select_target\<close> is the random choice.
\<close>

theorem sunk_on_first_hit:
  assumes "\<not> active (current_ship_info s)"
    and "direction (current_ship_info s) = None"
    and "hits (current_ship_info s) = []"
    and "last_hit s = Cell x y"
  shows "\<exists>s'. receive_result s is_ship_hit True = Inr s'
           \<and> dont_choose s' = dont_choose s \<union> {x - 1 .. x + 1} \<times> {y - 1 .. y + 1}
           \<and> \<not> active (current_ship_info s') \<and> hits (current_ship_info s') = []
           \<and> tracker s' = tracker s \<and> last_hit s' = last_hit s \<and> board s' = board s
           \<and> select_target s' rng =
               (case choose_randomly s' rng of
                  None \<Rightarrow> None
                | Some (Inl e) \<Rightarrow> Some (Inl e)
                | Some (Inr c) \<Rightarrow>
                    Some (Inr (c, s'\<lparr>tracker := insert c (tracker s'), last_hit := c\<rparr>)))"
proof -
  have u: "update_current_ship s (Cell x y) =
      Inr (s\<lparr>current_ship_info := (current_ship_info s)
              \<lparr>hits := [Cell x y], start := Cell x y, endc := Cell x y, direction := None\<rparr>\<rparr>)"
    using assms(2,3)
    by (simp add: update_current_ship_def infer_direction_def extend_boundaries_def Let_def)
  show ?thesis
    using assms(4)
    by (simp add: receive_result_def u dont_hit_nearby_cells_Cell reset_current_ship_def select_target_def pick_cell_def)
qed

text \<open>A ship of one cell sunk at (4, 4): the cells from (3, 3) to (5, 5) are excluded.\<close>

theorem sunk_on_first_hit_witness:
  "\<exists>s'. receive_result (idle {Cell 4 4} (Cell 4 4)) True True = Inr s'
      \<and> dont_choose s' = {3 .. 5} \<times> {3 .. 5}
      \<and> \<not> active (current_ship_info s') \<and> hits (current_ship_info s') = []"
  using sunk_on_first_hit [of "idle {Cell 4 4} (Cell 4 4)" 4 4 True "[]"]
  by (auto simp: idle_def new_ship_info_def)

section \<open>The exclusion zone of a sunk ship\<close>

text \<open>
  Claim C2, amended. With a pursuit active whose extremities and last target are cells,
  \<open>receive_result\<close> with \<open>has_ship_sunk\<close> true first folds the last target
  into the pursuit exactly as a hit that does not sink would (\<open>s1\<close> below is the
  state after such a hit), then adds to \<open>dont_choose\<close> exactly the cells
  \<open>(x, y)\<close> with \<open>start.x - 1 \<le> x \<le> end.x + 1\<close> and
  \<open>start.y - 1 \<le> y \<le> end.y + 1\<close> of the folded pursuit, in bounds or not, and
  resets the pursuit to the inactive, empty one. For a ship from (3, 3) to (3, 5) and
  nothing excluded before, the excluded set is exactly the rectangle from (2, 2) to
  (4, 6): three columns by five rows, 15 cells.
\<close>

theorem sunk_excludes_bounding_rectangle:
  assumes "active (current_ship_info s)"
    and "start (current_ship_info s) = Cell sx sy"
    and "endc (current_ship_info s) = Cell ex ey"
    and "last_hit s = Cell cx cy"
  shows "\<exists>s1 x1 y1 x2 y2.
           receive_result s True False = Inr s1
         \<and> start (current_ship_info s1) = Cell x1 y1 \<and> endc (current_ship_info s1) = Cell x2 y2
         \<and> receive_result s is_ship_hit True =
             Inr (s1\<lparr>dont_choose := dont_choose s \<union> {x1 - 1 .. x2 + 1} \<times> {y1 - 1 .. y2 + 1},
                     current_ship_info :=
                       \<lparr>active = False, start = PNone, endc = PNone, direction = None,
                        ship_length = None, hits = [], start_found = False,
                        end_found = False\<rparr>\<rparr>)"
proof -
  from update_current_ship_cells [OF assms(2,3), of cx cy]
  obtain s1 x1 y1 x2 y2 where u: "update_current_ship s (Cell cx cy) = Inr s1"
    and se: "start (current_ship_info s1) = Cell x1 y1" "endc (current_ship_info s1) = Cell x2 y2"
    and dc: "dont_choose s1 = dont_choose s"
    by blast
  have "receive_result s True False = Inr s1"
    using assms(1,4) u by (simp add: receive_result_def)
  moreover have "receive_result s is_ship_hit True =
             Inr (s1\<lparr>dont_choose := dont_choose s \<union> {x1 - 1 .. x2 + 1} \<times> {y1 - 1 .. y2 + 1},
                     current_ship_info :=
                       \<lparr>active = False, start = PNone, endc = PNone, direction = None,
                        ship_length = None, hits = [], start_found = False,
                        end_found = False\<rparr>\<rparr>)"
    using assms(4) u dc
    by (simp add: receive_result_def dont_hit_nearby_cells_Cell [OF se] reset_current_ship_def)
  ultimately show ?thesis using se by blast
qed

text \<open>The ship from (3, 3) to (3, 5), sunk by the hit at (3, 5).\<close>

theorem sunk_excludes_bounding_rectangle_witness:
  "\<exists>s'. receive_result length3 True True = Inr s'
      \<and> dont_choose s' = {2 .. 4} \<times> {2 .. 6}
      \<and> \<not> active (current_ship_info s') \<and> hits (current_ship_info s') = []"
  using sunk_excludes_bounding_rectangle [of length3 3 3 3 4 3 5 True]
  by (auto simp: length3_def pursuing_def pursuit_def play_unfold)

text \<open>
  Claim C2 as first stated calls this set "the 5 by 5 rectangle from (2, 2) to (4, 6)".
  The set the code builds has 15 cells, not 25.
\<close>

theorem excluded_rectangle_not_5_by_5_counterexample:
  "\<exists>s'. receive_result length3 True True = Inr s'
      \<and> dont_choose s' = {2 .. 4} \<times> {2 .. 6}
      \<and> card (dont_choose s') = 15
      \<and> card (dont_choose s') \<noteq> 5 * 5"
  by (simp add: length3_def pursuing_def pursuit_def play_unfold rows_of_pairs)

section \<open>The second hit fixes the direction\<close>

text \<open>
  Claim C5. With a pursuit active, its direction unknown, at least the first hit
  recorded and \<open>start = end = (sx, sy)\<close>, \<open>receive_result\<close> with a hit that
  does not sink at the cell \<open>(cx, cy)\<close> appends the cell to \<open>hits\<close>; the
  direction becomes vertical if the cell shares \<open>start\<close>'s x-coordinate, and
  horizontal if it does not but shares the y-coordinate; and along that axis the smaller
  of the two coordinates is \<open>start\<close>'s and the larger is \<open>end\<close>'s. Nothing
  else changes.
\<close>

theorem second_hit_fixes_direction:
  assumes "active (current_ship_info s)"
    and "direction (current_ship_info s) = None"
    and "hits (current_ship_info s) \<noteq> []"
    and "start (current_ship_info s) = Cell sx sy"
    and "endc (current_ship_info s) = Cell sx sy"
    and "last_hit s = Cell cx cy"
  shows "\<exists>s'. receive_result s True False = Inr s'
           \<and> hits (current_ship_info s') = hits (current_ship_info s) @ [Cell cx cy]
           \<and> (cx = sx \<longrightarrow> direction (current_ship_info s') = Some V
                \<and> start (current_ship_info s') = Cell sx (min cy sy)
                \<and> endc (current_ship_info s') = Cell sx (max cy sy))
           \<and> (cx \<noteq> sx \<and> cy = sy \<longrightarrow> direction (current_ship_info s') = Some H
                \<and> start (current_ship_info s') = Cell (min cx sx) sy
                \<and> endc (current_ship_info s') = Cell (max cx sx) sy)
           \<and> active (current_ship_info s')
           \<and> start_found (current_ship_info s') = start_found (current_ship_info s)
           \<and> end_found (current_ship_info s') = end_found (current_ship_info s)
           \<and> tracker s' = tracker s \<and> dont_choose s' = dont_choose s
           \<and> last_hit s' = last_hit s \<and> board s' = board s"
proof -
  have "length (hits (current_ship_info s) @ [Cell cx cy]) \<noteq> 1"
    using assms(3) by (cases "hits (current_ship_info s)") simp_all
  then show ?thesis
    using assms(1,2,4,5,6)
    by (auto simp: receive_result_def update_current_ship_def infer_direction_def
          extend_boundaries_def Let_def min_def max_def)
qed

text \<open>
  A first hit at (4, 4) starts the pursuit; a second hit at (4, 6) makes it vertical
  from (4, 4) to (4, 6).
\<close>

theorem second_hit_fixes_direction_witness:
  "receive_result (idle {Cell 4 4} (Cell 4 4)) True False
     = Inr (pursuing {Cell 4 4} (new_ship_info\<lparr>active := True, start := Cell 4 4, endc := Cell 4 4, hits := [Cell 4 4]\<rparr>)\<lparr>last_hit := Cell 4 4\<rparr>)
   \<and> (\<exists>s'. receive_result (pursuing {Cell 4 4, Cell 4 6} (new_ship_info\<lparr>active := True, start := Cell 4 4, endc := Cell 4 4, hits := [Cell 4 4]\<rparr>)\<lparr>last_hit := Cell 4 6\<rparr>) True False = Inr s'
      \<and> direction (current_ship_info s') = Some V
      \<and> start (current_ship_info s') = Cell 4 4
      \<and> endc (current_ship_info s') = Cell 4 6
      \<and> hits (current_ship_info s') = [Cell 4 4, Cell 4 6])"
  using second_hit_fixes_direction [of "pursuing {Cell 4 4, Cell 4 6} (new_ship_info\<lparr>active := True, start := Cell 4 4, endc := Cell 4 4, hits := [Cell 4 4]\<rparr>)\<lparr>last_hit := Cell 4 6\<rparr>" 4 4 4 6]
  by (auto simp: idle_def pursuing_def new_ship_info_def receive_result_def initialise_ship_def)

section \<open>No cell is chosen twice\<close>



section \<open>When select\_target returns a cell of the grid\<close>

text \<open>
  Claim C4. Take any state reached in a game against a lawful fleet, from a new player,
  whatever the random draws, in which some in-bounds cell is neither attempted nor
  excluded. There \<open>select_target\<close> raises no error and returns no value other than
  a cell of the grid, in every branch. With a pursuit active (direction unknown or
  known) it returns a cell \<open>(x, y)\<close> with \<open>1 \<le> x \<le> width\<close> and
  \<open>1 \<le> y \<le> height\<close>. With no pursuit it returns such a cell as soon as the
  draws reach a legal cell, the loop is still running when the draws are used up before
  that, and draws that reach a legal cell exist.
\<close>

theorem select_target_returns_cell:
  assumes law: "lawful_fleet b fl"
    and game: "play_against fl (new_player b) rngs = Some (Inr s)"
    and free: "legal s x0 y0"
  shows "(active (current_ship_info s) \<or> draws_reach_legal s rng \<longrightarrow>
            (\<exists>x y. chooses s rng (Cell x y)
               \<and> 1 \<le> x \<and> x \<le> width (board s) \<and> 1 \<le> y \<and> y \<le> height (board s)))
       \<and> (\<not> active (current_ship_info s) \<and> \<not> draws_reach_legal s rng \<longrightarrow>
            select_target s rng = None)
       \<and> (\<exists>rng'. draws_reach_legal s rng')"
proof -
  have inv: "game_inv b fl s"
    by (rule play_against_inv [OF law new_player_game_inv game])
  have bd: "1 \<le> width (board s)" "1 \<le> height (board s)"
    using legal_board [OF free] by simp_all
  have ret: "\<exists>x y. chooses s rng (Cell x y)
               \<and> 1 \<le> x \<and> x \<le> width (board s) \<and> 1 \<le> y \<and> y \<le> height (board s)"
    if "\<exists>x y. pick_cell s rng = Some (Inr (Cell x y))"
  proof -
    from that obtain x y where p: "pick_cell s rng = Some (Inr (Cell x y))" by blast
    then have "chooses s rng (Cell x y)" by (simp add: chooses_def select_target_def)
    moreover from pick_cell_legal [OF p]
    have "1 \<le> x \<and> x \<le> width (board s) \<and> 1 \<le> y \<and> y \<le> height (board s)"
      by (simp add: legal_def)
    ultimately show ?thesis by blast
  qed
  have "\<exists>x y. pick_cell s rng = Some (Inr (Cell x y))"
    if "active (current_ship_info s) \<or> draws_reach_legal s rng"
  proof (cases "active (current_ship_info s)")
    case True
    from pick_active [OF law inv True, of rng] show ?thesis by blast
  next
    case False
    with that have "draws_reach_legal s rng" by simp
    from choose_randomly_reaches [OF this] False show ?thesis by (simp add: pick_cell_def)
  qed
  with ret have a: "active (current_ship_info s) \<or> draws_reach_legal s rng \<longrightarrow>
            (\<exists>x y. chooses s rng (Cell x y)
               \<and> 1 \<le> x \<and> x \<le> width (board s) \<and> 1 \<le> y \<and> y \<le> height (board s))"
    by blast
  have b: "\<not> active (current_ship_info s) \<and> \<not> draws_reach_legal s rng \<longrightarrow>
            select_target s rng = None"
    using choose_randomly_dry [OF _ bd, of rng] by (simp add: select_target_def pick_cell_def)
  have c: "\<exists>rng'. draws_reach_legal s rng'" using draws_for_cell [OF free] by blast
  from a b c show ?thesis by blast
qed

text \<open>
  A ship on (4, 4), (4, 5), (4, 6), and the three branches: before the first turn, with
  draws that give (4, 4); after the first hit at (4, 5), with the direction unknown;
  and after the miss at (3, 5) and the hit at (4, 4), with the direction vertical.
\<close>

theorem select_target_returns_cell_witness:
  "lawful_fleet board10 three_cells
   \<and> play_against three_cells (new_player board10) [] = Some (Inr (new_player board10))
   \<and> draws_reach_legal (new_player board10) [3, 3]
   \<and> (\<exists>x y. chooses (new_player board10) [3, 3] (Cell x y)
         \<and> 1 \<le> x \<and> x \<le> width (board (new_player board10))
         \<and> 1 \<le> y \<and> y \<le> height (board (new_player board10)))
   \<and> play_against three_cells (new_player board10) [[3, 4]] = Some (Inr seeking_4_5)
   \<and> (\<exists>x y. chooses seeking_4_5 [] (Cell x y)
         \<and> 1 \<le> x \<and> x \<le> width (board seeking_4_5) \<and> 1 \<le> y \<and> y \<le> height (board seeking_4_5))
   \<and> play_against three_cells (new_player board10) [[3, 4], [], []] = Some (Inr extending_4_4)
   \<and> (\<exists>x y. chooses extending_4_4 [] (Cell x y)
         \<and> 1 \<le> x \<and> x \<le> width (board extending_4_4) \<and> 1 \<le> y \<and> y \<le> height (board extending_4_4))"
proof -
  have l: "lawful_fleet board10 three_cells"
    by (simp add: lawful_fleet_def three_cells_def board10_def)
  have g0: "play_against three_cells (new_player board10) [] = Some (Inr (new_player board10))"
    by simp
  have g1: "play_against three_cells (new_player board10) [[3, 4]] = Some (Inr seeking_4_5)"
    by (simp add: play_unfold fleet_unfold seeking_4_5_def del: ship_sunk_iff)
  have g2: "play_against three_cells (new_player board10) [[3, 4], [], []] = Some (Inr extending_4_4)"
    by (simp add: play_unfold fleet_unfold extending_4_4_def del: ship_sunk_iff)
  have f0: "legal (new_player board10) 1 1"
    by (simp add: legal_def new_player_def board10_def)
  have f1: "legal seeking_4_5 1 1"
    by (simp add: legal_def seeking_4_5_def board10_def)
  have f2: "legal extending_4_4 1 1"
    by (simp add: legal_def extending_4_4_def board10_def)
  have d0: "draws_reach_legal (new_player board10) [3, 3]"
    by (simp add: legal_def new_player_def board10_def)
  have a1: "active (current_ship_info seeking_4_5)" by (simp add: seeking_4_5_def)
  have a2: "active (current_ship_info extending_4_4)" by (simp add: extending_4_4_def)
  from select_target_returns_cell [OF l g0 f0, of "[3, 3]"] d0
    select_target_returns_cell [OF l g1 f1, of "[]"] a1
    select_target_returns_cell [OF l g2 f2, of "[]"] a2
    l g0 g1 g2
  show ?thesis by blast
qed

text \<open>
  The separation of the ships is needed. With ships on (4, 4), (4, 5) and on (3, 4),
  (3, 5), which touch, the hits at (4, 4) and (3, 4) are taken for one horizontal ship;
  after the misses at (2, 4) and (5, 4) \<open>select_target\<close> returns \<open>False\<close>
  although (1, 1) is free.
\<close>

lemma touching_ships_give_False:
  "\<not> lawful_fleet board10 [Ship 4 4 4 5, Ship 3 4 3 5]
   \<and> (\<exists>s. play_against [Ship 4 4 4 5, Ship 3 4 3 5] (new_player board10) [[3, 3], [], [], []]
          = Some (Inr s)
        \<and> legal s 1 1 \<and> chooses s [] PFalse)"
proof -
  have "(4, 4) \<in> ship_cells (Ship 4 4 4 5) \<inter> ship_zone (Ship 3 4 3 5)" by simp
  then have "ship_cells (Ship 4 4 4 5) \<inter> ship_zone (Ship 3 4 3 5) \<noteq> {}" by blast
  then have "\<not> lawful_fleet board10 [Ship 4 4 4 5, Ship 3 4 3 5]"
    by (simp add: lawful_fleet_def)
  moreover have "\<exists>s. play_against [Ship 4 4 4 5, Ship 3 4 3 5] (new_player board10) [[3, 3], [], [], []]
          = Some (Inr s)
        \<and> legal s 1 1 \<and> chooses s [] PFalse"
    by (simp add: play_unfold fleet_unfold chooses_def legal_def del: ship_sunk_iff)
  ultimately show ?thesis ..
qed

end
